theory Spec2Isabelle
  imports Main "HOL-Library.Word" "HOL-Library.Char_ord" "HOL-Library.List_Lexorder"
begin

unbundle bit_operations_syntax

chapter \<open>watch: re-run a command when its inputs or its output change\<close>

text \<open>
  A shallow embedding of \<^verbatim>\<open>watch.go\<close> and of the two screens it writes to. Go strings and
  byte slices are \<^typ>\<open>string\<close> (a list of 8-bit characters), \<^verbatim>\<open>uint32\<close> is a
  32-bit word, \<^verbatim>\<open>int\<close> and \<^verbatim>\<open>time.Duration\<close> are \<^typ>\<open>int\<close>. A nil
  \<^verbatim>\<open>*WatchPaths\<close> is \<^term>\<open>None\<close>. A call of \<^verbatim>\<open>bail\<close> ends the process with
  status 1, so every function that may call it returns a sum whose left side is the
  message. What the operating system answers (the directory tree, file contents, what the
  child process wrote and how it ended, the clock) is an argument of the function that asks.
\<close>

section \<open>Definitions\<close>

subsection \<open>The checksum: package hash/adler32 of the Go standard library\<close>

text \<open>
  \<^verbatim>\<open>adler32.update\<close> splits the 32-bit digest into two 16-bit halves, adds the bytes in
  32-bit arithmetic in blocks of at most \<^verbatim>\<open>nmax\<close> bytes (the inner loop is unrolled four
  times, the rest is added byte by byte), reduces both halves modulo 65521 after each
  block and puts them together again. \<^verbatim>\<open>New\<close> and \<^verbatim>\<open>Reset\<close> set the digest to 1,
  \<^verbatim>\<open>Write\<close> is \<^verbatim>\<open>update\<close>, \<^verbatim>\<open>Sum32\<close> reads the digest and
  \<^verbatim>\<open>Checksum(data)\<close> is \<^verbatim>\<open>update(1, data)\<close>.
\<close>

type_synonym uint32 = "32 word"
type_synonym digest = uint32

definition adler32_mod :: uint32 where
  "adler32_mod = 65521"

definition nmax :: nat where
  "nmax = 5552"

fun unrolled :: "uint32 \<times> uint32 \<Rightarrow> string \<Rightarrow> (uint32 \<times> uint32) \<times> string" where
  "unrolled (s1, s2) (p0 # p1 # p2 # p3 # p) =
     (let s1 = s1 + of_char p0; s2 = s2 + s1;
          s1 = s1 + of_char p1; s2 = s2 + s1;
          s1 = s1 + of_char p2; s2 = s2 + s1;
          s1 = s1 + of_char p3; s2 = s2 + s1
      in unrolled (s1, s2) p)"
| "unrolled (s1, s2) p = ((s1, s2), p)"

fun remainder :: "uint32 \<times> uint32 \<Rightarrow> string \<Rightarrow> uint32 \<times> uint32" where
  "remainder (s1, s2) [] = (s1, s2)"
| "remainder (s1, s2) (x # p) =
     (let s1 = s1 + of_char x; s2 = s2 + s1 in remainder (s1, s2) p)"

text \<open>One pass of the outer loop's body over a block \<open>p\<close> of at most \<open>nmax\<close> bytes.\<close>

definition block :: "uint32 \<times> uint32 \<Rightarrow> string \<Rightarrow> uint32 \<times> uint32" where
  "block s p =
     (case unrolled s p of (s', p') \<Rightarrow>
      case remainder s' p' of (s1, s2) \<Rightarrow> (s1 mod adler32_mod, s2 mod adler32_mod))"

function blocks :: "uint32 \<times> uint32 \<Rightarrow> string \<Rightarrow> uint32 \<times> uint32" where
  "blocks s p =
     (if length p > 0 then
        (if length p > nmax then blocks (block s (take nmax p)) (drop nmax p)
         else blocks (block s p) [])
      else s)"
  by pat_completeness auto
termination
  by (relation "measure (\<lambda>(s, p). length p)") (auto simp: nmax_def)

definition adler32_update :: "digest \<Rightarrow> string \<Rightarrow> digest" where
  "adler32_update d p =
     (case blocks (d AND 0xffff, drop_bit 16 d) p of (s1, s2) \<Rightarrow> push_bit 16 s2 OR s1)"

definition New :: digest where
  "New = 1"

definition Reset :: "digest \<Rightarrow> digest" where
  "Reset d = 1"

definition Write :: "digest \<Rightarrow> string \<Rightarrow> digest" where
  "Write d p = adler32_update d p"

definition Sum32 :: "digest \<Rightarrow> uint32" where
  "Sum32 d = d"

definition Checksum :: "string \<Rightarrow> uint32" where
  "Checksum data = adler32_update 1 data"

text \<open>
  The two halves of a digest as numbers, the digests whose halves are reduced, and the
  sums the two halves accumulate; used to reason about \<^const>\<open>adler32_update\<close>.
\<close>

definition lo :: "digest \<Rightarrow> nat" where
  "lo d = unat (d AND 0xffff)"

definition hi :: "digest \<Rightarrow> nat" where
  "hi d = unat (drop_bit 16 d)"

definition reduced :: "digest \<Rightarrow> bool" where
  "reduced d \<longleftrightarrow> lo d < 65521 \<and> hi d < 65521"

definition pack :: "nat \<Rightarrow> nat \<Rightarrow> digest" where
  "pack a b = push_bit 16 (of_nat b) OR of_nat a"

fun bsum :: "string \<Rightarrow> nat" where
  "bsum [] = 0"
| "bsum (x # p) = of_char x + bsum p"

fun wsum :: "string \<Rightarrow> nat" where
  "wsum [] = 0"
| "wsum (x # p) = Suc (length p) * of_char x + wsum p"

subsection \<open>Text: UTF-8 decoding, white space, strings.Fields and strings.TrimSpace\<close>

text \<open>
  \<^verbatim>\<open>utf8.DecodeRuneInString\<close>: the first code point of a string and the number of bytes
  it takes; a byte sequence that is not valid UTF-8 decodes to \<^verbatim>\<open>RuneError\<close> of width 1.
\<close>

definition RuneError :: nat where
  "RuneError = 0xFFFD"

fun DecodeRuneInString :: "string \<Rightarrow> nat \<times> nat" where
  "DecodeRuneInString [] = (RuneError, 0)"
| "DecodeRuneInString (c0 # s) =
     (let s0 = (of_char c0 :: nat) in
      if s0 < 0x80 then (s0, 1)
      else if s0 < 0xC2 \<or> 0xF4 < s0 then (RuneError, 1)
      else
        let sz = (if s0 < 0xE0 then 2 else if s0 < 0xF0 then 3 else 4 :: nat);
            accept_lo = (if s0 = 0xE0 then 0xA0 else if s0 = 0xF0 then 0x90 else 0x80 :: nat);
            accept_hi = (if s0 = 0xED then 0x9F else if s0 = 0xF4 then 0x8F else 0xBF :: nat)
        in
        if Suc (length s) < sz then (RuneError, 1)
        else
          let s1 = (of_char (s ! 0) :: nat) in
          if s1 < accept_lo \<or> accept_hi < s1 then (RuneError, 1)
          else if sz \<le> 2 then ((s0 mod 32) * 64 + s1 mod 64, 2)
          else
            let s2 = (of_char (s ! 1) :: nat) in
            if s2 < 0x80 \<or> 0xBF < s2 then (RuneError, 1)
            else if sz \<le> 3 then ((s0 mod 16) * 4096 + (s1 mod 64) * 64 + s2 mod 64, 3)
            else
              let s3 = (of_char (s ! 2) :: nat) in
              if s3 < 0x80 \<or> 0xBF < s3 then (RuneError, 1)
              else ((s0 mod 8) * 262144 + (s1 mod 64) * 4096 + (s2 mod 64) * 64 + s3 mod 64, 4))"

text \<open>\<^verbatim>\<open>utf8.RuneStart\<close>: the byte is not a continuation byte.\<close>

definition RuneStart :: "char \<Rightarrow> bool" where
  "RuneStart b \<longleftrightarrow> (of_char b :: nat) div 64 \<noteq> 2"

text \<open>
  The loop of \<^verbatim>\<open>utf8.DecodeLastRuneInString\<close> that looks for the start of the last
  code point, going back from \<open>start\<close> and no further than \<open>lim\<close>.
\<close>

function scan_back :: "string \<Rightarrow> int \<Rightarrow> int \<Rightarrow> int" where
  "scan_back s start lim =
     (if start \<ge> lim then
        (if RuneStart (s ! nat start) then start else scan_back s (start - 1) lim)
      else start)"
  by pat_completeness auto
termination
  by (relation "measure (\<lambda>(s, start, lim). nat (start - lim + 1))") auto

declare scan_back.simps [simp del]

definition DecodeLastRuneInString :: "string \<Rightarrow> nat \<times> nat" where
  "DecodeLastRuneInString s =
     (let endpos = int (length s) in
      if endpos = 0 then (RuneError, 0)
      else
        let r = (of_char (s ! nat (endpos - 1)) :: nat) in
        if r < 0x80 then (r, 1)
        else
          let lim = (if endpos - 4 < 0 then 0 else endpos - 4);
              start = scan_back s (endpos - 2) lim;
              start = (if start < 0 then 0 else start);
              (r, width) = DecodeRuneInString (drop (nat start) s)
          in if start + int width \<noteq> endpos then (RuneError, 1) else (r, width))"

text \<open>\<^verbatim>\<open>unicode.IsSpace\<close>: the code points with Unicode's White Space property.\<close>

definition IsSpace :: "nat \<Rightarrow> bool" where
  "IsSpace r \<longleftrightarrow>
     r \<in> {0x09, 0x0A, 0x0B, 0x0C, 0x0D, 0x20, 0x85, 0xA0,
          0x1680, 0x2028, 0x2029, 0x202F, 0x205F, 0x3000}
     \<or> (0x2000 \<le> r \<and> r \<le> 0x200A)"

text \<open>
  \<^verbatim>\<open>strings.Fields(s)\<close> is \<^verbatim>\<open>strings.FieldsFunc(s, unicode.IsSpace)\<close> (the loop for
  ASCII strings in \<^verbatim>\<open>Fields\<close> computes the same). \<open>FieldsFunc\<close> goes through the code
  points of \<open>s\<close>; \<open>start\<close> holds the bytes of the field being read, if any.
\<close>

function FieldsFunc :: "string option \<Rightarrow> string \<Rightarrow> string list" where
  "FieldsFunc start s =
     (if s = [] then (case start of Some field \<Rightarrow> [field] | None \<Rightarrow> [])
      else
        case DecodeRuneInString s of (rune, width) \<Rightarrow>
        if IsSpace rune then
          (case start of
             Some field \<Rightarrow> field # FieldsFunc None (drop width s)
           | None \<Rightarrow> FieldsFunc None (drop width s))
        else
          (case start of
             Some field \<Rightarrow> FieldsFunc (Some (field @ take width s)) (drop width s)
           | None \<Rightarrow> FieldsFunc (Some (take width s)) (drop width s)))"
  by pat_completeness auto
termination
proof -
  have pos: "length s - width < length s"
    if "s \<noteq> []" "(rune, width) = DecodeRuneInString s" for s rune width
  proof -
    have "0 < snd (DecodeRuneInString s)"
      using that(1) by (cases s) (simp_all add: Let_def)
    with that(2) have "0 < width" by (metis snd_conv)
    with that(1) show ?thesis by simp
  qed
  show ?thesis
    by (relation "measure (\<lambda>(start, s). length s)") (auto intro: pos)
qed

declare FieldsFunc.simps [simp del]

definition Fields :: "string \<Rightarrow> string list" where
  "Fields s = FieldsFunc None s"

text \<open>
  \<^verbatim>\<open>strings.TrimSpace(s)\<close> is \<^verbatim>\<open>TrimRightFunc(TrimLeftFunc(s, IsSpace), IsSpace)\<close>
  (its loops for ASCII bytes compute the same). The left side is read forwards, the right
  side backwards with \<^const>\<open>DecodeLastRuneInString\<close>.
\<close>

function TrimLeftFunc :: "string \<Rightarrow> string" where
  "TrimLeftFunc s =
     (if s = [] then []
      else
        case DecodeRuneInString s of (rune, width) \<Rightarrow>
        if IsSpace rune then TrimLeftFunc (drop width s) else s)"
  by pat_completeness auto
termination
proof -
  have pos: "length s - width < length s"
    if "s \<noteq> []" "(rune, width) = DecodeRuneInString s" for s rune width
  proof -
    have "0 < snd (DecodeRuneInString s)"
      using that(1) by (cases s) (simp_all add: Let_def)
    with that(2) have "0 < width" by (metis snd_conv)
    with that(1) show ?thesis by simp
  qed
  show ?thesis
    by (relation "measure length") (auto intro: pos)
qed

declare TrimLeftFunc.simps [simp del]

text \<open>
  \<^verbatim>\<open>lastIndexFunc(s, IsSpace, false)\<close>: the index where the last code point that is not
  white space starts, or -1. The loop's \<^verbatim>\<open>s[0:i]\<close> is the argument.
\<close>

function lastIndexFunc :: "string \<Rightarrow> int" where
  "lastIndexFunc s =
     (if length s > 0 then
        (case DecodeLastRuneInString s of (rune, width) \<Rightarrow>
         if \<not> IsSpace rune then int (length s) - int width
         else lastIndexFunc (take (length s - width) s))
      else - 1)"
  by pat_completeness auto
termination
proof -
  have back_le: "scan_back s start lim \<le> start" for s start lim
  proof (induction s start lim rule: scan_back.induct)
    case (1 s start lim)
    then show ?case by (subst scan_back.simps) auto
  qed
  have pos: "length s - width < length s"
    if "0 < length s" "(rune, width) = DecodeLastRuneInString s" for s rune width
  proof -
    define e where "e = int (length s)"
    define lim where "lim = (if e - 4 < 0 then 0 else e - 4)"
    define b where "b = scan_back s (e - 2) lim"
    define start where "start = (if b < 0 then 0 else b)"
    define d where "d = DecodeRuneInString (drop (nat start) s)"
    have unfolded: "DecodeLastRuneInString s =
        (if e = 0 then (RuneError, 0)
         else if (of_char (s ! nat (e - 1)) :: nat) < 0x80 then (of_char (s ! nat (e - 1)), 1)
         else if start + int (snd d) \<noteq> e then (RuneError, 1) else (fst d, snd d))"
      unfolding DecodeLastRuneInString_def Let_def e_def lim_def b_def start_def d_def
      by (simp only: case_prod_beta)
    have "b \<le> e - 2" unfolding b_def by (rule back_le)
    moreover have e: "0 < e" using that(1) by (simp add: e_def)
    ultimately have "start < e" by (simp add: start_def)
    with e have "0 < snd (DecodeLastRuneInString s)"
      unfolding unfolded by auto
    with that(2) have "0 < width" by (metis snd_conv)
    with that(1) show ?thesis by simp
  qed
  show ?thesis
    by (relation "measure length") (auto intro: pos)
qed

declare lastIndexFunc.simps [simp del]

definition TrimRightFunc :: "string \<Rightarrow> string" where
  "TrimRightFunc s =
     (let i = lastIndexFunc s;
          i = (if i \<ge> 0 \<and> (of_char (s ! nat i) :: nat) \<ge> 0x80
               then i + int (snd (DecodeRuneInString (drop (nat i) s)))
               else i + 1)
      in take (nat i) s)"

definition TrimSpace :: "string \<Rightarrow> string" where
  "TrimSpace s = TrimRightFunc (TrimLeftFunc s)"

text \<open>\<^verbatim>\<open>%v\<close> of an \<^verbatim>\<open>int\<close>: its decimal digits, with a minus sign when negative.\<close>

fun digits :: "nat \<Rightarrow> string" where
  "digits n =
     (if n < 10 then [''0123456789'' ! n]
      else digits (n div 10) @ [''0123456789'' ! (n mod 10)])"

definition FormatInt :: "int \<Rightarrow> string" where
  "FormatInt i = (if i < 0 then CHR ''-'' # digits (nat (- i)) else digits (nat i))"

subsection \<open>The command (watch.go, type WatchCommand)\<close>

text \<open>
  The errors the loop tells apart: \<^verbatim>\<open>*exec.ExitError\<close> with the exit code of the
  process, \<^verbatim>\<open>context.DeadlineExceeded\<close>, and any other error with its text.
\<close>

datatype error = ExitError int | DeadlineExceeded | OtherError string

record WatchCommand =
  name :: string
  args :: "string list"
  timeout :: int
  buf :: string
  prev :: uint32
  err :: "error option"

text \<open>
  What one execution of the child process does, as \<^verbatim>\<open>run\<close> sees it: the bytes the
  process wrote to its standard output and standard error, the result of
  \<^verbatim>\<open>cmd.Run()\<close>, and whether \<^verbatim>\<open>ctx.Err()\<close> is non-nil afterwards (the context is
  made by \<^verbatim>\<open>context.WithTimeout\<close> and cancelled only after the test, so its only
  error is \<^verbatim>\<open>DeadlineExceeded\<close>).
\<close>

record execution =
  written :: string
  run_err :: "error option"
  deadline_passed :: bool

definition WatchCommand_hasChanged :: "WatchCommand \<Rightarrow> bool" where
  "WatchCommand_hasChanged c \<longleftrightarrow> WatchCommand.prev c \<noteq> Checksum (buf c)"

definition WatchCommand_run :: "execution \<Rightarrow> WatchCommand \<Rightarrow> WatchCommand" where
  "WatchCommand_run x c =
     (let c = c\<lparr>WatchCommand.prev := Checksum (buf c)\<rparr>;
          c = c\<lparr>buf := []\<rparr>;
          c = c\<lparr>buf := buf c @ written x\<rparr>;
          c = c\<lparr>err := run_err x\<rparr>
      in if deadline_passed x then c\<lparr>err := Some DeadlineExceeded\<rparr> else c)"

definition WatchCommand_output :: "WatchCommand \<Rightarrow> string" where
  "WatchCommand_output c = TrimSpace (buf c)"

text \<open>
  The chain of tests on \<^verbatim>\<open>cmd.err\<close> in \<^verbatim>\<open>main\<close> (lines 109 to 119), in its order:
  an \<^verbatim>\<open>*exec.ExitError\<close>, then \<^verbatim>\<open>DeadlineExceeded\<close>, then any other error, then nil.
\<close>

datatype outcome = ExitCode int | Timeout | ExecutionError error | Clean

fun classify :: "error option \<Rightarrow> outcome" where
  "classify (Some (ExitError code)) = ExitCode code"
| "classify (Some DeadlineExceeded) = Timeout"
| "classify (Some e) = ExecutionError e"
| "classify None = Clean"

subsection \<open>The watched paths (watch.go, type WatchPaths)\<close>

text \<open>
  The file system as the program asks for it. \<open>Stat\<close> is \<^verbatim>\<open>os.Stat\<close>: an error, or
  whether the path is a directory. \<open>Lstat\<close> gives what \<^verbatim>\<open>filepath.Walk\<close> finds at a
  root path: a tree of entries, see below. \<open>ReadFile\<close> is
  \<^verbatim>\<open>os.ReadFile\<close>: an error or the contents. \<open>Join\<close> is \<^verbatim>\<open>filepath.Join\<close>.

  An entry is what \<^verbatim>\<open>os.Lstat\<close> answers for a path: an error; something that is not a
  directory, with \<^verbatim>\<open>Mode().IsRegular()\<close>; or a directory, with the answer of reading
  its names (an error or the names, in any order) and the entry under each name.
\<close>

datatype entry =
    LstatError string
  | NotDir bool
  | Dir "string + string list" "string \<Rightarrow> entry"

record filesystem =
  Stat :: "string \<Rightarrow> string + bool"
  Lstat :: "string \<Rightarrow> entry"
  ReadFile :: "string \<Rightarrow> string + string"
  Join :: "string \<Rightarrow> string \<Rightarrow> string"

text \<open>The messages of the calls of \<^verbatim>\<open>bail\<close>, with the arguments they format.\<close>

datatype message =
    InvalidPath string string
  | TimeoutAfter int
  | Executing string "string list" error
  | ErrorWalking string string
  | ErrorReading string string

record WatchPaths =
  files :: "string list"
  dirs :: "string list"
  prev :: uint32
  hash :: digest

text \<open>The loop of \<^verbatim>\<open>NewWatchPaths\<close> over the fields of the path string.\<close>

fun classify_paths :: "filesystem \<Rightarrow> string list \<Rightarrow> WatchPaths \<Rightarrow> message + WatchPaths" where
  "classify_paths fs [] wp = Inr wp"
| "classify_paths fs (p # paths) wp =
     (case Stat fs p of
        Inl e \<Rightarrow> Inl (InvalidPath p e)
      | Inr isDir \<Rightarrow>
          if isDir then classify_paths fs paths (wp\<lparr>dirs := dirs wp @ [p]\<rparr>)
          else classify_paths fs paths (wp\<lparr>files := files wp @ [p]\<rparr>))"

definition NewWatchPaths :: "filesystem \<Rightarrow> string \<Rightarrow> message + WatchPaths option" where
  "NewWatchPaths fs pathStr =
     (if pathStr = [] then Inr None
      else
        case classify_paths fs (Fields pathStr)
               \<lparr>files = [], dirs = [], WatchPaths.prev = 0, hash = New\<rparr> of
          Inl m \<Rightarrow> Inl m
        | Inr wp \<Rightarrow> Inr (Some wp))"

definition WatchPaths_hasChanged :: "WatchPaths option \<Rightarrow> bool" where
  "WatchPaths_hasChanged p =
     (case p of None \<Rightarrow> True | Some p \<Rightarrow> WatchPaths.prev p \<noteq> Sum32 (hash p))"

text \<open>
  \<^verbatim>\<open>filepath.Walk\<close> with the function \<^verbatim>\<open>update\<close> passes to it. The function is called
  for the root and then, for a directory, for the entries under its sorted names, each
  walked in turn. It sends the path of a regular file to the channel and bails when
  called with an error: when \<^verbatim>\<open>Lstat\<close> fails, or when the names of a directory cannot
  be read.
\<close>

datatype walk_event = Sent string | WalkError string string

primrec walk :: "(string \<Rightarrow> string \<Rightarrow> string) \<Rightarrow> entry \<Rightarrow> string \<Rightarrow> walk_event list" where
  "walk J (LstatError e) = (\<lambda>path. [WalkError path e])"
| "walk J (NotDir regular) = (\<lambda>path. if regular then [Sent path] else [])"
| "walk J (Dir names child) = (\<lambda>path.
     case names of
       Inl e \<Rightarrow> [WalkError path e]
     | Inr names \<Rightarrow> concat (map (\<lambda>name. walk J (child name) (J path name)) (sort names)))"

definition Walk :: "filesystem \<Rightarrow> string \<Rightarrow> walk_event list" where
  "Walk fs root = walk (Join fs) (Lstat fs root) root"

text \<open>What the goroutine of \<^verbatim>\<open>update\<close> does, in its order.\<close>

definition producer :: "filesystem \<Rightarrow> WatchPaths \<Rightarrow> walk_event list" where
  "producer fs p = map Sent (files p) @ concat (map (Walk fs) (dirs p))"

text \<open>
  The loop of \<^verbatim>\<open>update\<close> over the channel. The process ends at the first call of
  \<^verbatim>\<open>bail\<close>, in the goroutine or in the loop; the loop is taken to have read every file
  sent before the goroutine bails.
\<close>

fun consumer :: "filesystem \<Rightarrow> walk_event list \<Rightarrow> WatchPaths \<Rightarrow> message + WatchPaths" where
  "consumer fs [] p = Inr p"
| "consumer fs (WalkError path e # events) p = Inl (ErrorWalking path e)"
| "consumer fs (Sent f # events) p =
     (case ReadFile fs f of
        Inl e \<Rightarrow> Inl (ErrorReading f e)
      | Inr data \<Rightarrow> consumer fs events (p\<lparr>hash := Write (hash p) data\<rparr>))"

definition WatchPaths_update :: "filesystem \<Rightarrow> WatchPaths option \<Rightarrow> message + WatchPaths option" where
  "WatchPaths_update fs p =
     (case p of
        None \<Rightarrow> Inr None
      | Some p \<Rightarrow>
          (let p = p\<lparr>WatchPaths.prev := Sum32 (hash p)\<rparr>;
               p = p\<lparr>hash := Reset (hash p)\<rparr>
           in (case consumer fs (producer fs p) p of
                 Inl m \<Rightarrow> Inl m
               | Inr p \<Rightarrow> Inr (Some p))))"

subsection \<open>The screens (type WatchScreen and its two implementations)\<close>

datatype screen_type = plain | vt100

record WatchScreen =
  scrType :: screen_type
  name :: string
  status :: string

definition CLEAR :: string where
  "CLEAR = [CHR 0x1B] @ ''[H'' @ [CHR 0x1B] @ ''[2J''"

definition BOLD :: string where
  "BOLD = [CHR 0x1B] @ ''[1m''"

definition RESET :: string where
  "RESET = [CHR 0x1B] @ ''[0m''"

text \<open>
  \<^verbatim>\<open>Write\<close> of a screen prints one frame: a header with the name, the time
  (\<^verbatim>\<open>timestamp()\<close>, the argument \<open>now\<close>) and the status, an empty line, and the bytes.
  The result is the text printed to standard output.
\<close>

definition screen_Write :: "WatchScreen \<Rightarrow> string \<Rightarrow> string \<Rightarrow> string" where
  "screen_Write s now b =
     (let header =
            (case scrType s of
               plain \<Rightarrow> ''WATCH '' @ WatchScreen.name s @ '' ['' @ now
             | vt100 \<Rightarrow> CLEAR @ BOLD @ ''WATCH '' @ WatchScreen.name s @ RESET @ '' ['' @ now);
          header = (if status s \<noteq> [] then header @ '' '' @ status s else header);
          header = header @ '']''
      in header @ [CHR 0x0A, CHR 0x0A] @ b)"

definition Status :: "string \<Rightarrow> WatchScreen \<Rightarrow> WatchScreen" where
  "Status txt s = s\<lparr>status := txt\<rparr>"

subsection \<open>The loop of main\<close>

text \<open>
  The state of the loop is the command, the paths, the screen and the flag
  \<^verbatim>\<open>first\<close>; \<open>effects\<close> lists what the loop has done so far: slept, called \<^verbatim>\<open>cmd.run()\<close>,
  printed a frame to standard output, printed a message to standard error.
\<close>

datatype effect =
    Sleep int
  | Run string "string list"
  | Frame string
  | Stderr message

record loop_state =
  cmd :: WatchCommand
  paths :: "WatchPaths option"
  screen :: WatchScreen
  first :: bool
  effects :: "effect list"

text \<open>What one cycle meets: the file system, the execution of the command, the time.\<close>

record cycle_env =
  env_fs :: filesystem
  env_exec :: execution
  env_now :: string

text \<open>
  \<^verbatim>\<open>bail\<close> prints the message and ends the process with status 1: the left side of the
  result, with the state the process ends in.
\<close>

definition bail :: "message \<Rightarrow> loop_state \<Rightarrow> (nat \<times> loop_state) + loop_state" where
  "bail m s = Inl (1, s\<lparr>effects := effects s @ [Stderr m]\<rparr>)"

text \<open>Lines 121 to 124: the frame, and \<^verbatim>\<open>first = false\<close>.\<close>

definition redraw :: "cycle_env \<Rightarrow> loop_state \<Rightarrow> loop_state" where
  "redraw env s =
     (let s = (if WatchCommand_hasChanged (cmd s) \<or> first s
               then s\<lparr>effects := effects s @ [Frame (screen_Write (screen s) (env_now env) (buf (cmd s)))]\<rparr>
               else s)
      in s\<lparr>first := False\<rparr>)"

text \<open>One pass of the body of the loop (lines 101 to 124), with the delay of \<^verbatim>\<open>main\<close>.\<close>

definition cycle :: "int \<Rightarrow> cycle_env \<Rightarrow> loop_state \<Rightarrow> (nat \<times> loop_state) + loop_state" where
  "cycle delay env s =
     (let s = s\<lparr>effects := effects s @ [Sleep delay]\<rparr> in
      case WatchPaths_update (env_fs env) (paths s) of
        Inl m \<Rightarrow> bail m s
      | Inr p \<Rightarrow>
          (let s = s\<lparr>paths := p\<rparr> in
           if \<not> WatchPaths_hasChanged (paths s) then Inr s
           else
             (let s = s\<lparr>cmd := WatchCommand_run (env_exec env) (cmd s)\<rparr>;
                  s = s\<lparr>effects := effects s @ [Run (WatchCommand.name (cmd s)) (args (cmd s))]\<rparr>
              in
              (case classify (err (cmd s)) of
                 ExitCode code \<Rightarrow>
                   Inr (redraw env (s\<lparr>screen := Status (''exit code '' @ FormatInt code) (screen s)\<rparr>))
               | Timeout \<Rightarrow> bail (TimeoutAfter (timeout (cmd s))) s
               | ExecutionError e \<Rightarrow>
                   bail (Executing (WatchCommand.name (cmd s)) (args (cmd s)) e) s
               | Clean \<Rightarrow>
                   if WatchCommand_output (cmd s) = []
                   then Inr (redraw env (s\<lparr>screen := Status ''no output'' (screen s)\<rparr>))
                   else Inr (redraw env (s\<lparr>screen := Status [] (screen s)\<rparr>))))))"

text \<open>
  The loop has no exit of its own. \<open>cycles\<close> runs it over the environments of its first
  cycles and stops where a cycle bails.
\<close>

fun cycles :: "int \<Rightarrow> cycle_env list \<Rightarrow> loop_state \<Rightarrow> (nat \<times> loop_state) + loop_state" where
  "cycles delay [] s = Inr s"
| "cycles delay (env # envs) s =
     (case cycle delay env s of
        Inl stop \<Rightarrow> Inl stop
      | Inr s \<Rightarrow> cycles delay envs s)"

text \<open>The state in which \<^verbatim>\<open>main\<close> enters the loop (line 99).\<close>

definition loop_entry :: "WatchCommand \<Rightarrow> WatchPaths option \<Rightarrow> WatchScreen \<Rightarrow> loop_state" where
  "loop_entry c p scr = \<lparr>cmd = c, paths = p, screen = scr, first = True, effects = []\<rparr>"

text \<open>The command as \<^verbatim>\<open>main\<close> makes it (lines 69 to 73): no output, no error yet.\<close>

definition new_command :: "string \<Rightarrow> string list \<Rightarrow> int \<Rightarrow> WatchCommand" where
  "new_command n a t =
     \<lparr>WatchCommand.name = n, args = a, timeout = t, buf = [], WatchCommand.prev = 0, err = None\<rparr>"

subsection \<open>Notions the properties are stated with\<close>

text \<open>
  The order the specification gives for the files an update reads: the explicit files in
  their configured order, then, for each directory in turn, the regular files under it,
  depth first, the names of each level in lexicographic order.
\<close>

primrec regular_files :: "(string \<Rightarrow> string \<Rightarrow> string) \<Rightarrow> entry \<Rightarrow> string \<Rightarrow> string list" where
  "regular_files J (LstatError e) = (\<lambda>path. [])"
| "regular_files J (NotDir regular) = (\<lambda>path. if regular then [path] else [])"
| "regular_files J (Dir names child) = (\<lambda>path.
     case names of
       Inl e \<Rightarrow> []
     | Inr names \<Rightarrow>
         concat (map (\<lambda>name. regular_files J (child name) (J path name)) (sort names)))"

definition stable_order :: "filesystem \<Rightarrow> WatchPaths \<Rightarrow> string list" where
  "stable_order fs p =
     files p @ concat (map (\<lambda>dir. regular_files (Join fs) (Lstat fs dir) dir) (dirs p))"

text \<open>The contents of a file that can be read.\<close>

definition contents :: "filesystem \<Rightarrow> string \<Rightarrow> string" where
  "contents fs f = (case ReadFile fs f of Inl e \<Rightarrow> [] | Inr data \<Rightarrow> data)"

definition readable :: "filesystem \<Rightarrow> string \<Rightarrow> bool" where
  "readable fs f = (case ReadFile fs f of Inl e \<Rightarrow> False | Inr data \<Rightarrow> True)"

text \<open>The paths among the events of a walk that were sent to the channel.\<close>

fun sent_paths :: "walk_event list \<Rightarrow> string list" where
  "sent_paths [] = []"
| "sent_paths (Sent f # events) = f # sent_paths events"
| "sent_paths (WalkError path e # events) = sent_paths events"

text \<open>Updates in a row, each with the file system of its time.\<close>

fun updates :: "filesystem list \<Rightarrow> WatchPaths option \<Rightarrow> message + WatchPaths option" where
  "updates [] p = Inr p"
| "updates (fs # fss) p =
     (case WatchPaths_update fs p of
        Inl m \<Rightarrow> Inl m
      | Inr p \<Rightarrow> updates fss p)"

text \<open>The state a cycle ends in, whether the loop goes on or the process ends.\<close>

fun final :: "(nat \<times> loop_state) + loop_state \<Rightarrow> loop_state" where
  "final (Inl (code, s)) = s"
| "final (Inr s) = s"

fun is_Run :: "effect \<Rightarrow> bool" where
  "is_Run (Run n a) = True"
| "is_Run e = False"

text \<open>The code points of a string, as a \<^verbatim>\<open>range\<close> loop over it yields them.\<close>

function runes :: "string \<Rightarrow> nat list" where
  "runes s =
     (if s = [] then []
      else case DecodeRuneInString s of (rune, width) \<Rightarrow> rune # runes (drop width s))"
  by pat_completeness auto
termination
proof -
  have pos: "length s - width < length s"
    if "s \<noteq> []" "(rune, width) = DecodeRuneInString s" for s rune width
  proof -
    have "0 < snd (DecodeRuneInString s)"
      using that(1) by (cases s) (simp_all add: Let_def)
    with that(2) have "0 < width" by (metis snd_conv)
    with that(1) show ?thesis by simp
  qed
  show ?thesis
    by (relation "measure length") (auto intro: pos)
qed

declare runes.simps [simp del]

definition white_space_only :: "string \<Rightarrow> bool" where
  "white_space_only s = list_all IsSpace (runes s)"

text \<open>The watcher that watches nothing, after an update.\<close>

definition idle :: WatchPaths where
  "idle = \<lparr>files = [], dirs = [], WatchPaths.prev = 1, hash = 1\<rparr>"

text \<open>
  The state of a cycle that runs the command, after \<^verbatim>\<open>cmd.run()\<close> (line 107): the paths
  are updated, the command has run, and the loop has slept and run the command.
\<close>

definition after_run :: "int \<Rightarrow> cycle_env \<Rightarrow> WatchPaths option \<Rightarrow> loop_state \<Rightarrow> loop_state" where
  "after_run delay env p s =
     s\<lparr>paths := p,
       cmd := WatchCommand_run (env_exec env) (cmd s),
       effects := effects s @ [Sleep delay, Run (WatchCommand.name (cmd s)) (args (cmd s))]\<rparr>"

subsection \<open>Examples\<close>

text \<open>
  A command, a screen and three executions: one that exits with status 3, one that is
  cut off by the deadline after it wrote part of its output, one that writes 65521 zero bytes.
\<close>

definition example_command :: WatchCommand where
  "example_command = new_command ''make'' [''test''] 60000000000"

definition example_screen :: WatchScreen where
  "example_screen = \<lparr>scrType = plain, WatchScreen.name = ''make'', status = []\<rparr>"

definition exits_3 :: execution where
  "exits_3 = \<lparr>written = ''FAIL'', run_err = Some (ExitError 3), deadline_passed = False\<rparr>"

definition cut_off :: execution where
  "cut_off = \<lparr>written = ''partial'', run_err = Some (ExitError 2), deadline_passed = True\<rparr>"

definition zeros :: execution where
  "zeros = \<lparr>written = replicate 65521 (CHR 0x00), run_err = None, deadline_passed = False\<rparr>"

text \<open>
  A file system with two files and the directory \<open>data\<close>, which holds a file, a
  symbolic link and a directory with two files; and one where \<open>data\<close> is empty.
\<close>

definition example_tree :: entry where
  "example_tree =
     Dir (Inr [''z.txt'', ''sub'', ''link''])
       (\<lambda>n. if n = ''sub'' then Dir (Inr [''y'', ''x'']) (\<lambda>m. NotDir True)
            else if n = ''link'' then NotDir False
            else NotDir True)"

definition example_fs :: filesystem where
  "example_fs =
     \<lparr>Stat = (\<lambda>p. if p = ''data'' then Inr True
                  else if p = ''b.txt'' \<or> p = ''a.txt'' then Inr False
                  else Inl ''no such file or directory''),
      Lstat = (\<lambda>p. if p = ''data'' then example_tree
                   else LstatError ''no such file or directory''),
      ReadFile = (\<lambda>p. if p = ''b.txt'' then Inr ''B''
                      else if p = ''a.txt'' then Inr ''A''
                      else if p = ''data/sub/x'' then Inr ''x''
                      else if p = ''data/sub/y'' then Inr ''y''
                      else if p = ''data/z.txt'' then Inr ''z''
                      else Inl ''no such file or directory''),
      Join = (\<lambda>p n. p @ ''/'' @ n)\<rparr>"

definition example_paths :: WatchPaths where
  "example_paths =
     \<lparr>files = [''b.txt'', ''a.txt''], dirs = [''data''], WatchPaths.prev = 0, hash = New\<rparr>"

definition empty_dir_fs :: filesystem where
  "empty_dir_fs =
     \<lparr>Stat = (\<lambda>p. if p = ''data'' then Inr True else Inl ''no such file or directory''),
      Lstat = (\<lambda>p. if p = ''data'' then Dir (Inr []) (\<lambda>n. LstatError ''no such file or directory'')
                   else LstatError ''no such file or directory''),
      ReadFile = (\<lambda>p. Inl ''no such file or directory''),
      Join = (\<lambda>p n. p @ ''/'' @ n)\<rparr>"

definition example_env :: "filesystem \<Rightarrow> execution \<Rightarrow> cycle_env" where
  "example_env f x = \<lparr>env_fs = f, env_exec = x, env_now = ''12:00:00''\<rparr>"

section \<open>Properties of the checksum\<close>

text \<open>
  The four-fold unrolled loop adds the same as the byte-wise loop; within a block of at
  most 5552 bytes the 32-bit sums do not overflow, so that a block computes the two sums
  of Adler-32 modulo 65521; and so does any sequence of blocks.
\<close>

lemma unrolled_remainder:
  "(case unrolled s p of (s', p') \<Rightarrow> remainder s' p') = remainder s p"
  by (induction s p rule: unrolled.induct) (simp_all only: unrolled.simps remainder.simps Let_def split_conv)

lemma remainder_closed:
  "remainder (of_nat a, of_nat b) p =
     (of_nat (a + bsum p), of_nat (b + length p * a + wsum p))"
proof (induction p arbitrary: a b)
  case Nil
  show ?case by simp
next
  case (Cons x p)
  have "remainder (of_nat a, of_nat b) (x # p)
        = remainder (of_nat (a + of_char x), of_nat (b + (a + of_char x))) p"
    by (simp add: Let_def of_nat_of_char)
  also have "\<dots> = (of_nat (a + of_char x + bsum p),
                   of_nat (b + (a + of_char x) + length p * (a + of_char x) + wsum p))"
    by (rule Cons.IH)
  finally show ?case by (simp add: algebra_simps)
qed

lemma of_char_le_255: "(of_char x :: nat) \<le> 255"
proof -
  have "(of_char x :: nat) < 256" by (rule nat_of_char_less_256)
  then show ?thesis by linarith
qed

lemma bsum_bound: "bsum p \<le> 255 * length p"
proof (induction p)
  case Nil show ?case by simp
next
  case (Cons x p)
  with of_char_le_255 [of x] show ?case by simp
qed

lemma wsum_bound: "2 * wsum p \<le> 255 * (length p * Suc (length p))"
proof (induction p)
  case Nil show ?case by simp
next
  case (Cons x p)
  have "Suc (length p) * of_char x \<le> Suc (length p) * 255"
    by (rule mult_le_mono2) (rule of_char_le_255)
  with Cons show ?case by (simp add: algebra_simps)
qed

lemma word_mod_of_nat:
  assumes "k < 2 ^ 32"
  shows "(of_nat k :: uint32) mod adler32_mod = of_nat (k mod 65521)"
proof -
  have "unat ((of_nat k :: uint32) mod adler32_mod) = k mod 65521"
    using assms by (simp add: unat_mod unat_of_nat adler32_mod_def)
  then have "(of_nat (unat ((of_nat k :: uint32) mod adler32_mod)) :: uint32) = of_nat (k mod 65521)"
    by (rule arg_cong)
  then show ?thesis by simp
qed

lemma halves_roundtrip:
  fixes a b :: uint32
  shows "(push_bit 16 (take_bit 16 b) OR take_bit 16 a) AND 0xffff = take_bit 16 a"
    and "drop_bit 16 (push_bit 16 (take_bit 16 b) OR take_bit 16 a) = take_bit 16 b"
proof -
  have m: "(0xffff :: uint32) = mask 16" by (simp add: mask_eq_exp_minus_1)
  show "(push_bit 16 (take_bit 16 b) OR take_bit 16 a) AND 0xffff = take_bit 16 a"
    unfolding m by (rule bit_word_eqI) (auto simp: bit_simps)
  show "drop_bit 16 (push_bit 16 (take_bit 16 b) OR take_bit 16 a) = take_bit 16 b"
    by (rule bit_word_eqI) (auto simp: bit_simps)
qed

lemma small_take_bit:
  fixes w :: uint32
  assumes "w < 65521"
  shows "take_bit 16 w = w"
proof -
  have "(65521 :: uint32) < 2 ^ 16" by simp
  with assms have "w < 2 ^ 16" by (rule less_trans)
  then have "w AND mask 16 = w" by (rule less_mask_eq)
  then show ?thesis by (simp only: take_bit_eq_mask)
qed

lemma bsum_append: "bsum (p @ q) = bsum p + bsum q"
  by (induction p) simp_all

lemma wsum_append: "wsum (p @ q) = wsum p + length q * bsum p + wsum q"
  by (induction p) (simp_all add: algebra_simps)

lemma block_no_overflow:
  assumes "a < 65521" "b < 65521" "length p \<le> 5552"
  shows "a + bsum p < 2 ^ 32" and "b + length p * a + wsum p < 2 ^ 32"
proof -
  let ?n = "length p"
  have n: "?n \<le> 5552" by (rule assms)
  have "bsum p \<le> 255 * ?n" by (rule bsum_bound)
  also have "\<dots> \<le> 255 * 5552" using n by simp
  finally show "a + bsum p < 2 ^ 32" using assms(1) by simp
  have "?n * Suc ?n \<le> 5552 * Suc 5552"
    using n by (intro mult_le_mono) simp_all
  then have "255 * (?n * Suc ?n) \<le> 255 * (5552 * Suc 5552)"
    by (rule mult_le_mono2)
  with wsum_bound [of p] have w: "2 * wsum p \<le> 255 * (5552 * Suc 5552)"
    by (rule order_trans)
  have "?n * a \<le> 5552 * 65521"
    using n assms(1) by (intro mult_le_mono) simp_all
  with w assms(2) show "b + length p * a + wsum p < 2 ^ 32" by simp
qed

lemma block_char:
  assumes "a < 65521" "b < 65521" "length p \<le> 5552"
  shows "block (of_nat a, of_nat b) p
         = (of_nat ((a + bsum p) mod 65521), of_nat ((b + length p * a + wsum p) mod 65521))"
proof -
  obtain s' p' where u: "unrolled (of_nat a, of_nat b) p = (s', p')"
    by (cases "unrolled (of_nat a, of_nat b) p")
  have "(case unrolled (of_nat a, of_nat b) p of (s, p') \<Rightarrow> remainder s p')
        = (of_nat (a + bsum p), of_nat (b + length p * a + wsum p))"
    by (simp only: unrolled_remainder remainder_closed)
  then have r: "remainder s' p' = (of_nat (a + bsum p), of_nat (b + length p * a + wsum p))"
    by (simp only: u split_conv)
  show ?thesis
    by (simp only: block_def u r split_conv word_mod_of_nat [OF block_no_overflow(1) [OF assms]]
        word_mod_of_nat [OF block_no_overflow(2) [OF assms]])
qed

lemma mod_combine:
  "((x mod m) + k * (y mod m) + z) mod m = (x + k * y + z) mod (m::nat)"
proof -
  have "((x mod m) + k * (y mod m) + z) mod m = ((x mod m) + (k * (y mod m) + z)) mod m"
    by (simp only: add.assoc)
  also have "\<dots> = (x + (k * (y mod m) + z)) mod m"
    by (rule mod_add_left_eq)
  also have "\<dots> = (k * (y mod m) + (x + z)) mod m"
    by (simp only: ac_simps)
  also have "\<dots> = ((k * (y mod m)) mod m + (x + z)) mod m"
    by (simp only: mod_add_left_eq)
  also have "(k * (y mod m)) mod m = (k * y) mod m"
    by (rule mod_mult_right_eq)
  also have "((k * y) mod m + (x + z)) mod m = (k * y + (x + z)) mod m"
    by (rule mod_add_left_eq)
  also have "k * y + (x + z) = x + k * y + z"
    by simp
  finally show ?thesis .
qed

lemma mod_lt: "(k::nat) mod 65521 < 65521"
  by simp

lemma blocks_char:
  "a < 65521 \<Longrightarrow> b < 65521 \<Longrightarrow>
   blocks (of_nat a, of_nat b) p
     = (of_nat ((a + bsum p) mod 65521), of_nat ((b + length p * a + wsum p) mod 65521))"
proof (induction "length p" arbitrary: a b p rule: less_induct)
  case less
  show ?case
  proof (cases "p = []")
    case True
    with less.prems show ?thesis by simp
  next
    case False
    define c where "c = take nmax p"
    define q where "q = drop nmax p"
    have p: "p = c @ q" by (simp add: c_def q_def)
    have c: "length c \<le> 5552" by (simp add: c_def nmax_def)
    have q: "length q < length p" using False by (simp add: q_def nmax_def)
    let ?a = "(a + bsum c) mod 65521"
    let ?b = "(b + length c * a + wsum c) mod 65521"
    have "blocks (of_nat a, of_nat b) p = blocks (block (of_nat a, of_nat b) c) q"
      using False by (subst blocks.simps) (simp add: c_def q_def)
    also have "\<dots> = blocks (of_nat ?a, of_nat ?b) q"
      by (simp only: block_char [OF less.prems c])
    also have "\<dots> = (of_nat ((?a + bsum q) mod 65521), of_nat ((?b + length q * ?a + wsum q) mod 65521))"
      by (rule less.hyps [OF q mod_lt mod_lt])
    also have "(?a + bsum q) mod 65521 = (a + bsum p) mod 65521"
      by (simp add: p bsum_append mod_simps ac_simps)
    also have "(?b + length q * ?a + wsum q) mod 65521 = (b + length p * a + wsum p) mod 65521"
    proof -
      have "(?b + length q * ?a + wsum q) mod 65521
            = ((b + length c * a + wsum c) + length q * (a + bsum c) + wsum q) mod 65521"
        by (rule mod_combine)
      also have "(b + length c * a + wsum c) + length q * (a + bsum c) + wsum q
                 = b + length p * a + wsum p"
        by (simp add: p wsum_append algebra_simps)
      finally show ?thesis .
    qed
    finally show ?thesis .
  qed
qed


lemma of_nat_small:
  assumes "a < 65521"
  shows "(of_nat a :: uint32) < 65521"
proof -
  have "unat (of_nat a :: uint32) = a" using assms by (simp add: unat_of_nat)
  with assms show ?thesis by (simp add: word_less_nat_alt)
qed

lemma lo_hi_pack:
  assumes "a < 65521" "b < 65521"
  shows "lo (pack a b) = a" and "hi (pack a b) = b"
proof -
  have a: "take_bit 16 (of_nat a :: uint32) = of_nat a"
    by (rule small_take_bit [OF of_nat_small [OF assms(1)]])
  have b: "take_bit 16 (of_nat b :: uint32) = of_nat b"
    by (rule small_take_bit [OF of_nat_small [OF assms(2)]])
  have "pack a b AND 0xffff = of_nat a"
    using halves_roundtrip(1) [of "of_nat b" "of_nat a"] by (simp only: a b pack_def)
  then show "lo (pack a b) = a"
    using assms(1) by (simp add: lo_def unat_of_nat)
  have "drop_bit 16 (pack a b) = of_nat b"
    using halves_roundtrip(2) [of "of_nat b" "of_nat a"] by (simp only: a b pack_def)
  then show "hi (pack a b) = b"
    using assms(2) by (simp add: hi_def unat_of_nat)
qed

lemma update_char:
  assumes "reduced d"
  shows "adler32_update d p = pack ((lo d + bsum p) mod 65521) ((hi d + length p * lo d + wsum p) mod 65521)"
proof -
  have l: "lo d < 65521" and h: "hi d < 65521" using assms by (simp_all add: reduced_def)
  have "blocks (d AND 0xffff, drop_bit 16 d) p = blocks (of_nat (lo d), of_nat (hi d)) p"
    by (simp add: lo_def hi_def)
  also have "\<dots> = (of_nat ((lo d + bsum p) mod 65521), of_nat ((hi d + length p * lo d + wsum p) mod 65521))"
    by (rule blocks_char [OF l h])
  finally show ?thesis by (simp only: adler32_update_def pack_def split_conv)
qed

lemma lo_update: "reduced d \<Longrightarrow> lo (adler32_update d p) = (lo d + bsum p) mod 65521"
  by (simp only: update_char lo_hi_pack(1) [OF mod_lt mod_lt])

lemma hi_update: "reduced d \<Longrightarrow> hi (adler32_update d p) = (hi d + length p * lo d + wsum p) mod 65521"
  by (simp only: update_char lo_hi_pack(2) [OF mod_lt mod_lt])

lemma reduced_update: "reduced d \<Longrightarrow> reduced (adler32_update d p)"
  by (simp add: reduced_def [of "adler32_update d p"] lo_update hi_update)

lemma reduced_New: "reduced New"
  by (simp add: reduced_def lo_def hi_def New_def)

lemma lo_hi_New: "lo New = 1" "hi New = 0"
  by (simp_all add: lo_def hi_def New_def)

lemma update_append:
  assumes "reduced d"
  shows "adler32_update (adler32_update d p) q = adler32_update d (p @ q)"
proof -
  let ?a = "(lo d + bsum p) mod 65521"
  let ?b = "(hi d + length p * lo d + wsum p) mod 65521"
  have one: "(?a + bsum q) mod 65521 = (lo d + bsum (p @ q)) mod 65521"
    by (simp add: bsum_append mod_simps ac_simps)
  have two: "(?b + length q * ?a + wsum q) mod 65521
      = (hi d + length (p @ q) * lo d + wsum (p @ q)) mod 65521"
  proof -
    have "(?b + length q * ?a + wsum q) mod 65521
        = ((hi d + length p * lo d + wsum p) + length q * (lo d + bsum p) + wsum q) mod 65521"
      by (rule mod_combine)
    also have "(hi d + length p * lo d + wsum p) + length q * (lo d + bsum p) + wsum q
        = hi d + length (p @ q) * lo d + wsum (p @ q)"
      by (simp add: wsum_append algebra_simps)
    finally show ?thesis .
  qed
  have "adler32_update (adler32_update d p) q
      = pack ((lo (adler32_update d p) + bsum q) mod 65521)
             ((hi (adler32_update d p) + length q * lo (adler32_update d p) + wsum q) mod 65521)"
    by (rule update_char [OF reduced_update [OF assms]])
  also have "\<dots> = pack ((?a + bsum q) mod 65521) ((?b + length q * ?a + wsum q) mod 65521)"
    by (simp only: lo_update [OF assms] hi_update [OF assms])
  also have "\<dots> = pack ((lo d + bsum (p @ q)) mod 65521)
                        ((hi d + length (p @ q) * lo d + wsum (p @ q)) mod 65521)"
    by (simp only: one two)
  also have "\<dots> = adler32_update d (p @ q)"
    by (rule update_char [OF assms, symmetric])
  finally show ?thesis .
qed

lemma bsum_replicate_zero: "bsum (replicate n (CHR 0x00)) = 0"
  by (induction n) simp_all

lemma wsum_replicate_zero: "wsum (replicate n (CHR 0x00)) = 0"
  by (induction n) simp_all

lemma update_zeros: "adler32_update New (replicate 65521 (CHR 0x00)) = New"
proof -
  have "adler32_update New (replicate 65521 (CHR 0x00)) = pack 1 0"
    by (simp add: update_char [OF reduced_New] lo_hi_New bsum_replicate_zero wsum_replicate_zero)
  also have "\<dots> = New" by (simp add: pack_def New_def)
  finally show ?thesis .
qed

lemma bsum_zero_wsum: "bsum p = 0 \<Longrightarrow> wsum p = 0"
  by (induction p) simp_all

lemma update_short_nonempty:
  assumes "p \<noteq> []" "length p \<le> 256"
  shows "adler32_update New p \<noteq> New"
proof
  assume eq: "adler32_update New p = New"
  have "bsum p \<le> 255 * length p" by (rule bsum_bound)
  also have "\<dots> \<le> 255 * 256" using assms(2) by simp
  finally have small: "1 + bsum p < 65521" by simp
  have "lo (adler32_update New p) = (1 + bsum p) mod 65521"
    by (simp add: lo_update [OF reduced_New] lo_hi_New)
  with small have "lo (adler32_update New p) = 1 + bsum p" by simp
  with eq have z: "bsum p = 0" by (simp add: lo_hi_New)
  have "hi (adler32_update New p) = (length p + wsum p) mod 65521"
    by (simp add: hi_update [OF reduced_New] lo_hi_New)
  with eq z assms(2) have "length p = 0" by (simp add: lo_hi_New bsum_zero_wsum)
  with assms(1) show False by simp
qed

lemma adler32_update_Nil: "adler32_update d [] = d"
proof -
  have m: "(0xffff :: uint32) = mask 16" by (simp add: mask_eq_exp_minus_1)
  have "push_bit 16 (drop_bit 16 d) OR (d AND mask 16) = d"
    by (rule bit_word_eqI) (auto simp: bit_simps)
  then show ?thesis by (simp add: adler32_update_def m)
qed

lemma foldl_Write:
  "reduced d \<Longrightarrow> foldl Write d chunks = adler32_update d (concat chunks)"
proof (induction chunks arbitrary: d)
  case Nil
  show ?case by (simp add: adler32_update_Nil)
next
  case (Cons p chunks)
  have "foldl Write d (p # chunks) = foldl Write (adler32_update d p) chunks"
    by (simp add: Write_def)
  also have "\<dots> = adler32_update (adler32_update d p) (concat chunks)"
    by (rule Cons.IH [OF reduced_update [OF Cons.prems]])
  also have "\<dots> = adler32_update d (p @ concat chunks)"
    by (rule update_append [OF Cons.prems])
  finally show ?case by simp
qed

lemma Checksum_Nil: "Checksum [] = 1"
  by (simp add: Checksum_def adler32_update_Nil)

section \<open>Properties of the watched paths\<close>

lemma sent_paths_append: "sent_paths (xs @ ys) = sent_paths xs @ sent_paths ys"
  by (induction xs rule: sent_paths.induct) simp_all

lemma sent_paths_concat: "sent_paths (concat xss) = concat (map sent_paths xss)"
  by (induction xss) (simp_all add: sent_paths_append)

lemma sent_paths_map_Sent: "sent_paths (map Sent fs) = fs"
  by (induction fs) simp_all

text \<open>The paths a walk sends are the regular files under its root, in the order of the specification.\<close>

lemma sent_paths_walk: "sent_paths (walk J e path) = regular_files J e path"
proof (induction e arbitrary: path)
  case (LstatError x)
  show ?case by simp
next
  case (NotDir regular)
  show ?case by simp
next
  case (Dir names child)
  show ?case
  proof (cases names)
    case (Inl err)
    then show ?thesis by simp
  next
    case (Inr ns)
    have "sent_paths (walk J (child n) (J path n)) = regular_files J (child n) (J path n)" for n
      by (rule Dir.IH) simp
    with Inr show ?thesis
      by (simp add: sent_paths_concat comp_def)
  qed
qed

lemma sent_paths_producer: "sent_paths (producer fs p) = stable_order fs p"
  by (simp add: producer_def stable_order_def Walk_def sent_paths_append sent_paths_concat
      sent_paths_map_Sent comp_def sent_paths_walk)

text \<open>
  A loop over the channel that ends without bailing has met no error of the walk, has
  read every file sent, and has written their contents to the checksum in their order.
\<close>

lemma consumer_Inr:
  "consumer fs events p = Inr p' \<Longrightarrow>
     p' = p\<lparr>hash := foldl Write (hash p) (map (contents fs) (sent_paths events))\<rparr>
     \<and> list_all (readable fs) (sent_paths events)
     \<and> events = map Sent (sent_paths events)"
proof (induction fs events p rule: consumer.induct)
  case (1 fs p)
  then show ?case by simp
next
  case (2 fs path e events p)
  then show ?case by simp
next
  case (3 fs f events p)
  from "3.prems" obtain data where r: "ReadFile fs f = Inr data"
    by (cases "ReadFile fs f") simp_all
  with "3.prems" have "consumer fs events (p\<lparr>hash := Write (hash p) data\<rparr>) = Inr p'"
    by simp
  from "3.IH" [OF r this] r show ?case
    by (simp add: contents_def readable_def)
qed

lemma producer_fields:
  "producer fs (p\<lparr>WatchPaths.prev := a, hash := b\<rparr>) = producer fs p"
  by (simp add: producer_def)

lemma WatchPaths_update_Inr:
  assumes "WatchPaths_update fs (Some p) = Inr q"
  shows "q = Some (p\<lparr>WatchPaths.prev := Sum32 (hash p),
                     hash := foldl Write New (map (contents fs) (stable_order fs p))\<rparr>)"
    and "list_all (readable fs) (stable_order fs p)"
    and "producer fs p = map Sent (stable_order fs p)"
proof -
  let ?p = "p\<lparr>WatchPaths.prev := Sum32 (hash p), hash := Reset (hash p)\<rparr>"
  from assms obtain p' where c: "consumer fs (producer fs p) ?p = Inr p'" and q: "q = Some p'"
    by (auto simp: WatchPaths_update_def Let_def producer_fields split: sum.splits)
  from consumer_Inr [OF c] q
  show "q = Some (p\<lparr>WatchPaths.prev := Sum32 (hash p),
                     hash := foldl Write New (map (contents fs) (stable_order fs p))\<rparr>)"
    and "list_all (readable fs) (stable_order fs p)"
    and "producer fs p = map Sent (stable_order fs p)"
    by (simp_all add: sent_paths_producer Reset_def New_def)
qed

text \<open>A watcher with nothing to read: an update leaves the checksum of no data on both sides.\<close>

lemma WatchPaths_update_nothing:
  assumes "files p = []" "dirs p = []"
  shows "WatchPaths_update fs (Some p) = Inr (Some (p\<lparr>WatchPaths.prev := Sum32 (hash p), hash := 1\<rparr>))"
  using assms by (simp add: WatchPaths_update_def Let_def producer_def Reset_def)

lemma updates_None: "updates fss None = Inr None"
  by (induction fss) (simp_all add: WatchPaths_update_def)

lemma WatchPaths_update_idle: "WatchPaths_update fs (Some idle) = Inr (Some idle)"
  by (simp add: WatchPaths_update_def Let_def producer_def Reset_def idle_def Sum32_def)

lemma updates_idle: "updates fss (Some idle) = Inr (Some idle)"
  by (induction fss) (simp_all add: WatchPaths_update_idle)

text \<open>A string of white space has no fields.\<close>

lemma FieldsFunc_white_space:
  "list_all IsSpace (runes s) \<Longrightarrow> FieldsFunc None s = []"
proof (induction s rule: runes.induct)
  case (1 s)
  show ?case
  proof (cases "s = []")
    case True
    then show ?thesis by (simp add: FieldsFunc.simps)
  next
    case False
    obtain rune width where d: "DecodeRuneInString s = (rune, width)"
      by (cases "DecodeRuneInString s")
    from "1.prems" False d have sp: "IsSpace rune" and rest: "list_all IsSpace (runes (drop width s))"
      by (simp_all add: runes.simps [of s])
    from "1.IH" [OF False d [symmetric] rest] False d sp show ?thesis
      by (simp add: FieldsFunc.simps [of None s])
  qed
qed

lemma classify_paths_files_dirs:
  "classify_paths fs ps wp = Inr wp' \<Longrightarrow>
     WatchPaths.prev wp' = WatchPaths.prev wp \<and> hash wp' = hash wp"
proof (induction fs ps wp rule: classify_paths.induct)
  case (1 fs wp)
  then show ?case by simp
next
  case (2 fs p paths wp)
  then show ?case by (auto split: sum.splits if_splits)
qed

lemma NewWatchPaths_fresh:
  assumes "NewWatchPaths fs pathStr = Inr (Some wp)"
  shows "WatchPaths.prev wp = 0" and "hash wp = New"
proof -
  from assms have
    "classify_paths fs (Fields pathStr) \<lparr>files = [], dirs = [], WatchPaths.prev = 0, hash = New\<rparr> = Inr wp"
    by (auto simp: NewWatchPaths_def split: if_splits sum.splits)
  from classify_paths_files_dirs [OF this]
  show "WatchPaths.prev wp = 0" and "hash wp = New" by simp_all
qed

section \<open>Properties of the loop\<close>

lemma err_run:
  "err (WatchCommand_run x c) = (if deadline_passed x then Some DeadlineExceeded else run_err x)"
  by (simp add: WatchCommand_run_def Let_def)

lemma buf_run: "buf (WatchCommand_run x c) = written x"
  by (simp add: WatchCommand_run_def Let_def)

lemma prev_run: "WatchCommand.prev (WatchCommand_run x c) = Checksum (buf c)"
  by (simp add: WatchCommand_run_def Let_def)

lemma name_args_run:
  "WatchCommand.name (WatchCommand_run x c) = WatchCommand.name c"
  "args (WatchCommand_run x c) = args c"
  "timeout (WatchCommand_run x c) = timeout c"
  by (simp_all add: WatchCommand_run_def Let_def)

text \<open>A cycle that skips the command.\<close>

lemma cycle_skip:
  assumes "WatchPaths_update (env_fs env) (paths s) = Inr p" "\<not> WatchPaths_hasChanged p"
  shows "cycle delay env s = Inr (s\<lparr>effects := effects s @ [Sleep delay], paths := p\<rparr>)"
  using assms by (simp add: cycle_def Let_def)

lemma cycle_run:
  assumes "WatchPaths_update (env_fs env) (paths s) = Inr p" "WatchPaths_hasChanged p"
  shows "cycle delay env s =
     (case classify (err (WatchCommand_run (env_exec env) (cmd s))) of
        ExitCode code \<Rightarrow>
          Inr (redraw env ((after_run delay env p s)
                 \<lparr>screen := Status (''exit code '' @ FormatInt code) (screen s)\<rparr>))
      | Timeout \<Rightarrow> bail (TimeoutAfter (timeout (cmd s))) (after_run delay env p s)
      | ExecutionError e \<Rightarrow>
          bail (Executing (WatchCommand.name (cmd s)) (args (cmd s)) e) (after_run delay env p s)
      | Clean \<Rightarrow>
          Inr (redraw env ((after_run delay env p s)
                 \<lparr>screen := Status (if TrimSpace (written (env_exec env)) = [] then ''no output'' else [])
                              (screen s)\<rparr>)))"
  using assms
  by (simp add: cycle_def Let_def after_run_def name_args_run buf_run WatchCommand_output_def
      split: outcome.splits)

lemma effects_redraw:
  "effects (redraw env s) =
     effects s @ (if WatchCommand_hasChanged (cmd s) \<or> first s
                  then [Frame (screen_Write (screen s) (env_now env) (buf (cmd s)))] else [])"
  by (simp add: redraw_def Let_def)

lemma fields_redraw:
  "cmd (redraw env s) = cmd s" "paths (redraw env s) = paths s"
  "screen (redraw env s) = screen s" "first (redraw env s) = False"
  by (simp_all add: redraw_def Let_def)

text \<open>The flag \<^verbatim>\<open>first\<close> is set as long as no cycle has run the command.\<close>

lemma cycle_first:
  assumes "first s \<longleftrightarrow> \<not> list_ex is_Run (effects s)" "cycle delay env s = Inr s'"
  shows "first s' \<longleftrightarrow> \<not> list_ex is_Run (effects s')"
proof (cases "WatchPaths_update (env_fs env) (paths s)")
  case (Inl m)
  with assms(2) show ?thesis by (simp add: cycle_def Let_def bail_def)
next
  case (Inr p)
  show ?thesis
  proof (cases "WatchPaths_hasChanged p")
    case False
    from assms cycle_skip [OF Inr False, of delay] show ?thesis by auto
  next
    case True
    from assms(2) cycle_run [OF Inr True, of delay] show ?thesis
      by (auto simp: bail_def fields_redraw effects_redraw after_run_def split: outcome.splits)
  qed
qed

lemma cycles_first:
  "first s \<longleftrightarrow> \<not> list_ex is_Run (effects s) \<Longrightarrow> cycles delay envs s = Inr s' \<Longrightarrow>
     first s' \<longleftrightarrow> \<not> list_ex is_Run (effects s')"
proof (induction envs arbitrary: s)
  case Nil
  then show ?case by simp
next
  case (Cons env envs)
  from Cons.prems(2) obtain s1 where c: "cycle delay env s = Inr s1" and r: "cycles delay envs s1 = Inr s'"
    by (auto split: sum.splits)
  from Cons.IH [OF cycle_first [OF Cons.prems(1) c] r] show ?case .
qed

text \<open>Every cycle sleeps first, and a run of cycles only adds effects.\<close>

lemma cycle_sleeps:
  "\<exists>rest. effects (final (cycle delay env s)) = effects s @ Sleep delay # rest"
proof (cases "WatchPaths_update (env_fs env) (paths s)")
  case (Inl m)
  then show ?thesis by (simp add: cycle_def Let_def bail_def)
next
  case (Inr p)
  show ?thesis
  proof (cases "WatchPaths_hasChanged p")
    case False
    from cycle_skip [OF Inr False, of delay] show ?thesis by simp
  next
    case True
    from cycle_run [OF Inr True, of delay] show ?thesis
      by (auto simp: bail_def effects_redraw after_run_def split: outcome.splits)
  qed
qed

lemma cycles_sleep:
  "\<exists>rest. effects (final (cycles delay (env # envs) s)) = effects s @ Sleep delay # rest"
proof (induction envs arbitrary: env s)
  case Nil
  from cycle_sleeps [of delay env s] show ?case
    by (cases "cycle delay env s") auto
next
  case (Cons env' envs)
  show ?case
  proof (cases "cycle delay env s")
    case (Inl stop)
    with cycle_sleeps [of delay env s] show ?thesis by auto
  next
    case (Inr s1)
    with cycle_sleeps [of delay env s] obtain r1 where
      r1: "effects s1 = effects s @ Sleep delay # r1" by auto
    from Cons.IH [of env' s1] obtain r2 where
      "effects (final (cycles delay (env' # envs) s1)) = effects s1 @ Sleep delay # r2" by auto
    with Inr r1 show ?thesis by simp
  qed
qed

section \<open>The claims\<close>

text \<open>
  C1. In a cycle that runs the command (the update of the paths succeeded and reports a
  change): if the process exits with a non-zero status before the deadline, the cycle does
  not end the loop, the status of the screen becomes \<open>exit code\<close> followed by the code,
  and the loop goes on with the next cycle; if the deadline has passed, the process ends
  with status 1 and the message of the timeout, which carries the configured timeout; any
  other error of the execution ends the process with status 1 and a message, too.
\<close>

theorem exit_code_continues_other_errors_stop:
  assumes "WatchPaths_update (env_fs env) (paths s) = Inr p"
    and "WatchPaths_hasChanged p"
  shows "(\<not> deadline_passed (env_exec env) \<and> run_err (env_exec env) = Some (ExitError code) \<longrightarrow>
            (\<exists>s'. cycle delay env s = Inr s'
                 \<and> status (screen s') = ''exit code '' @ FormatInt code
                 \<and> cycles delay (env # envs) s = cycles delay envs s'))
       \<and> (deadline_passed (env_exec env) \<longrightarrow>
            (\<exists>s'. cycle delay env s = Inl (1, s')
                 \<and> last (effects s') = Stderr (TimeoutAfter (timeout (cmd s)))
                 \<and> cycles delay (env # envs) s = Inl (1, s')))
       \<and> (\<not> deadline_passed (env_exec env) \<and> run_err (env_exec env) = Some e
             \<and> (\<forall>c. e \<noteq> ExitError c) \<longrightarrow>
            (\<exists>s'. cycle delay env s = Inl (1, s')
                 \<and> last (effects s') =
                     Stderr (if e = DeadlineExceeded then TimeoutAfter (timeout (cmd s))
                             else Executing (WatchCommand.name (cmd s)) (args (cmd s)) e)
                 \<and> cycles delay (env # envs) s = Inl (1, s')))"
proof (intro conjI impI)
  assume "\<not> deadline_passed (env_exec env) \<and> run_err (env_exec env) = Some (ExitError code)"
  then have "classify (err (WatchCommand_run (env_exec env) (cmd s))) = ExitCode code"
    by (simp add: err_run)
  with cycle_run [OF assms, of delay]
  show "\<exists>s'. cycle delay env s = Inr s'
          \<and> status (screen s') = ''exit code '' @ FormatInt code
          \<and> cycles delay (env # envs) s = cycles delay envs s'"
    by (simp add: fields_redraw Status_def)
next
  assume "deadline_passed (env_exec env)"
  then have "classify (err (WatchCommand_run (env_exec env) (cmd s))) = Timeout"
    by (simp add: err_run)
  with cycle_run [OF assms, of delay]
  show "\<exists>s'. cycle delay env s = Inl (1, s')
          \<and> last (effects s') = Stderr (TimeoutAfter (timeout (cmd s)))
          \<and> cycles delay (env # envs) s = Inl (1, s')"
    by (simp add: bail_def)
next
  assume a: "\<not> deadline_passed (env_exec env) \<and> run_err (env_exec env) = Some e
             \<and> (\<forall>c. e \<noteq> ExitError c)"
  then have "classify (err (WatchCommand_run (env_exec env) (cmd s)))
             = (if e = DeadlineExceeded then Timeout else ExecutionError e)"
    by (cases e) (simp_all add: err_run)
  with cycle_run [OF assms, of delay]
  show "\<exists>s'. cycle delay env s = Inl (1, s')
          \<and> last (effects s') =
              Stderr (if e = DeadlineExceeded then TimeoutAfter (timeout (cmd s))
                      else Executing (WatchCommand.name (cmd s)) (args (cmd s)) e)
          \<and> cycles delay (env # envs) s = Inl (1, s')"
    by (simp add: bail_def)
qed

theorem exit_code_continues_other_errors_stop_witness:
  "(\<exists>s'. cycle 1 (example_env example_fs exits_3) (loop_entry example_command None example_screen) = Inr s'
        \<and> status (screen s') = ''exit code 3'')
   \<and> (\<exists>s'. cycle 1 (example_env example_fs cut_off) (loop_entry example_command None example_screen) = Inl (1, s')
        \<and> last (effects s') = Stderr (TimeoutAfter 60000000000))"
proof -
  have u: "WatchPaths_update (env_fs (example_env example_fs x))
             (paths (loop_entry example_command None example_screen)) = Inr None" for x
    by (simp add: WatchPaths_update_def loop_entry_def)
  have h: "WatchPaths_hasChanged None"
    by (simp add: WatchPaths_hasChanged_def)
  have "\<exists>s'. cycle 1 (example_env example_fs exits_3)
               (loop_entry example_command None example_screen) = Inr s'
          \<and> status (screen s') = ''exit code 3''"
    using exit_code_continues_other_errors_stop
      [OF u [of exits_3] h, where code = 3 and delay = 1 and envs = "[]" and e = DeadlineExceeded]
    by (auto simp add: example_env_def exits_3_def FormatInt_def)
  moreover have "\<exists>s'. cycle 1 (example_env example_fs cut_off)
               (loop_entry example_command None example_screen) = Inl (1, s')
          \<and> last (effects s') = Stderr (TimeoutAfter 60000000000)"
    using exit_code_continues_other_errors_stop
      [OF u [of cut_off] h, where code = 3 and delay = 1 and envs = "[]" and e = DeadlineExceeded]
    by (auto simp add: example_env_def cut_off_def loop_entry_def example_command_def new_command_def)
  ultimately show ?thesis by simp
qed

text \<open>
  C2. After \<open>run\<close> the outcome is one of four, and the timeout comes first: whenever the
  deadline has passed, the outcome is the timeout, whatever the result of the process
  (also when it exited, with any status); an outcome other than the timeout is possible
  only when the deadline has not passed, and then it is the one of the result of the
  process: its exit code, another error, or clean.
\<close>

theorem timeout_takes_precedence:
  "(deadline_passed x \<longrightarrow> classify (err (WatchCommand_run x c)) = Timeout)
   \<and> (classify (err (WatchCommand_run x c)) \<noteq> Timeout \<longrightarrow> \<not> deadline_passed x)
   \<and> (\<not> deadline_passed x \<longrightarrow>
        classify (err (WatchCommand_run x c)) =
          (case run_err x of
             None \<Rightarrow> Clean
           | Some (ExitError code) \<Rightarrow> ExitCode code
           | Some DeadlineExceeded \<Rightarrow> Timeout
           | Some (OtherError e) \<Rightarrow> ExecutionError (OtherError e)))"
  by (auto simp: err_run split: option.splits error.splits)

theorem timeout_takes_precedence_witness:
  "deadline_passed cut_off \<and> run_err cut_off = Some (ExitError 2)
   \<and> classify (err (WatchCommand_run cut_off example_command)) = Timeout
   \<and> classify (err (WatchCommand_run exits_3 example_command)) = ExitCode 3"
  using timeout_takes_precedence [of cut_off example_command]
    timeout_takes_precedence [of exits_3 example_command]
  by (simp add: cut_off_def exits_3_def)

text \<open>
  C3. In a cycle in which a watcher is configured and, after its update, reports no
  change, the command is not run and no frame is written: the cycle only sleeps and
  updates the watcher, the command, the screen and the flag \<open>first\<close> stay as they were,
  and what the loop does next is to sleep again.
\<close>

theorem unchanged_paths_skip_the_cycle:
  assumes "paths s = Some w"
    and "WatchPaths_update (env_fs env) (paths s) = Inr p"
    and "\<not> WatchPaths_hasChanged p"
  shows "\<exists>s'. cycle delay env s = Inr s'
           \<and> effects s' = effects s @ [Sleep delay]
           \<and> cmd s' = cmd s \<and> screen s' = screen s \<and> first s' = first s \<and> paths s' = p
           \<and> cycles delay (env # envs) s = cycles delay envs s'
           \<and> (\<exists>rest. effects (final (cycles delay (env # env' # envs) s))
                       = effects s @ [Sleep delay, Sleep delay] @ rest)"
proof -
  let ?s' = "s\<lparr>effects := effects s @ [Sleep delay], paths := p\<rparr>"
  have c: "cycle delay env s = Inr ?s'"
    by (rule cycle_skip [OF assms(2,3)])
  from cycles_sleep [of delay env' envs ?s'] obtain rest where
    "effects (final (cycles delay (env' # envs) ?s')) = effects ?s' @ Sleep delay # rest"
    by auto
  with c have "effects (final (cycles delay (env # env' # envs) s))
               = effects s @ [Sleep delay, Sleep delay] @ rest"
    by simp
  with c show ?thesis by simp
qed

theorem unchanged_paths_skip_the_cycle_witness:
  "\<exists>s'. cycle 1 (example_env example_fs exits_3) (loop_entry example_command (Some idle) example_screen) = Inr s'
       \<and> effects s' = [Sleep 1] \<and> cmd s' = example_command \<and> screen s' = example_screen"
proof -
  have u: "WatchPaths_update (env_fs (example_env example_fs exits_3))
             (paths (loop_entry example_command (Some idle) example_screen)) = Inr (Some idle)"
    by (simp add: loop_entry_def WatchPaths_update_idle)
  have h: "\<not> WatchPaths_hasChanged (Some idle)"
    by (simp add: WatchPaths_hasChanged_def idle_def Sum32_def)
  have p: "paths (loop_entry example_command (Some idle) example_screen) = Some idle"
    by (simp add: loop_entry_def)
  from unchanged_paths_skip_the_cycle [OF p u h, where delay = 1 and envs = "[]"
      and env' = "example_env example_fs exits_3"]
  show ?thesis by (auto simp add: loop_entry_def)
qed

text \<open>
  C4, as the claim states it, fails: in the first cycle of a loop without a watcher, with
  a command that is cut off by the deadline after it wrote part of its output, the cycle
  runs the command, it is the first cycle that ever ran it and \<open>hasChanged\<close> is true
  after the run, yet no frame is written: \<open>main\<close> bails with the message of the
  timeout (line 112) before it reaches the frame (line 121).
\<close>

theorem timeout_in_first_cycle_writes_no_frame:
  "first (loop_entry example_command None example_screen)
   \<and> \<not> list_ex is_Run (effects (loop_entry example_command None example_screen))
   \<and> WatchCommand_hasChanged
        (cmd (final (cycle 1 (example_env example_fs cut_off)
                       (loop_entry example_command None example_screen))))
   \<and> effects (final (cycle 1 (example_env example_fs cut_off)
                        (loop_entry example_command None example_screen)))
       = [Sleep 1, Run ''make'' [''test''], Stderr (TimeoutAfter 60000000000)]"
proof -
  let ?env = "example_env example_fs cut_off"
  let ?s0 = "loop_entry example_command None example_screen"
  have u: "WatchPaths_update (env_fs ?env) (paths ?s0) = Inr None"
    by (simp add: WatchPaths_update_def loop_entry_def)
  have h: "WatchPaths_hasChanged None"
    by (simp add: WatchPaths_hasChanged_def)
  have t: "classify (err (WatchCommand_run (env_exec ?env) (cmd ?s0))) = Timeout"
    by (simp add: err_run example_env_def cut_off_def)
  have c: "cycle 1 ?env ?s0
           = bail (TimeoutAfter (timeout (cmd ?s0))) (after_run 1 ?env None ?s0)"
    using cycle_run [OF u h, of 1] by (simp add: t)
  have "''partial'' \<noteq> []" and "length ''partial'' \<le> 256"
    by simp_all
  then have "adler32_update New ''partial'' \<noteq> New"
    by (rule update_short_nonempty)
  then have changed: "WatchCommand_hasChanged (WatchCommand_run cut_off example_command)"
    by (auto simp add: WatchCommand_hasChanged_def prev_run buf_run cut_off_def
        example_command_def new_command_def Checksum_def New_def adler32_update_Nil)
  have "cmd (final (cycle 1 ?env ?s0)) = WatchCommand_run cut_off example_command"
    by (simp only: c) (simp add: bail_def after_run_def example_env_def loop_entry_def)
  moreover have "effects (final (cycle 1 ?env ?s0))
       = [Sleep 1, Run ''make'' [''test''], Stderr (TimeoutAfter 60000000000)]"
    by (simp only: c)
       (simp add: bail_def after_run_def loop_entry_def example_command_def new_command_def)
  ultimately show ?thesis
    using changed by (simp add: loop_entry_def)
qed

text \<open>
  C4, amended. In a cycle of the loop that runs the command and does not end the process
  (the command neither ran into the deadline nor failed with an error other than its exit
  status), the effects are the sleep, the run and then one frame, holding the captured
  output, if and only if the output has changed (\<open>hasChanged\<close> of the command after
  the run) or no cycle before has run the command; otherwise they are the sleep and the
  run only, with no frame.
\<close>

theorem frame_iff_changed_or_first:
  assumes "cycles delay envs (loop_entry c p0 scr) = Inr s"
    and "WatchPaths_update (env_fs env) (paths s) = Inr p"
    and "WatchPaths_hasChanged p"
    and "cycle delay env s = Inr s'"
  shows "effects s' =
           effects s @ [Sleep delay, Run (WatchCommand.name (cmd s)) (args (cmd s))]
           @ (if WatchCommand_hasChanged (cmd s') \<or> \<not> list_ex is_Run (effects s)
              then [Frame (screen_Write (screen s') (env_now env) (written (env_exec env)))]
              else [])
         \<and> buf (cmd s') = written (env_exec env)"
proof -
  have "first (loop_entry c p0 scr) \<longleftrightarrow> \<not> list_ex is_Run (effects (loop_entry c p0 scr))"
    by (simp add: loop_entry_def)
  from cycles_first [OF this assms(1)]
  have first: "first s \<longleftrightarrow> \<not> list_ex is_Run (effects s)" .
  from assms(4) cycle_run [OF assms(2,3), of delay] show ?thesis
    by (auto simp: bail_def fields_redraw effects_redraw after_run_def buf_run first
        split: outcome.splits)
qed

theorem frame_iff_changed_or_first_witness:
  "\<exists>s1 s2.
     cycles 1 [example_env example_fs exits_3] (loop_entry example_command None example_screen) = Inr s1
     \<and> cycle 1 (example_env example_fs exits_3) s1 = Inr s2
     \<and> effects s1 = [Sleep 1, Run ''make'' [''test''], Frame (''WATCH make [12:00:00 exit code 3]'' @ [CHR 0x0A, CHR 0x0A] @ ''FAIL'')]
     \<and> effects s2 = effects s1 @ [Sleep 1, Run ''make'' [''test'']]"
proof -
  let ?env = "example_env example_fs exits_3"
  let ?s0 = "loop_entry example_command None example_screen"
  have h: "WatchPaths_hasChanged None"
    by (simp add: WatchPaths_hasChanged_def)
  have u: "WatchPaths_update (env_fs ?env) None = Inr None"
    by (simp add: WatchPaths_update_def)
  have cls: "classify (err (WatchCommand_run (env_exec ?env) k)) = ExitCode 3" for k
    by (simp add: err_run example_env_def exits_3_def)
  define s1 where "s1 = redraw ?env ((after_run 1 ?env None ?s0)
      \<lparr>screen := Status (''exit code '' @ FormatInt 3) (screen ?s0)\<rparr>)"
  define s2 where "s2 = redraw ?env ((after_run 1 ?env None s1)
      \<lparr>screen := Status (''exit code '' @ FormatInt 3) (screen s1)\<rparr>)"
  have p0: "paths ?s0 = None" by (simp add: loop_entry_def)
  have c1: "cycle 1 ?env ?s0 = Inr s1"
    using cycle_run [of ?env ?s0 None 1] u h by (simp add: p0 cls s1_def)
  have p1: "paths s1 = None" by (simp add: s1_def fields_redraw after_run_def)
  have c2: "cycle 1 ?env s1 = Inr s2"
    using cycle_run [of ?env s1 None 1] u h by (simp add: p1 cls s2_def)
  have r1: "cycles 1 [?env] ?s0 = Inr s1" using c1 by simp
  have e0: "effects s1 = [Sleep 1, Run ''make'' [''test''],
       Frame (''WATCH make [12:00:00 exit code 3]'' @ [CHR 0x0A, CHR 0x0A] @ ''FAIL'')]"
    by (simp add: s1_def effects_redraw after_run_def loop_entry_def example_command_def
        new_command_def example_env_def exits_3_def screen_Write_def example_screen_def
        Status_def FormatInt_def WatchCommand_run_def Let_def)
  have same: "\<not> WatchCommand_hasChanged (cmd s2)"
    by (simp add: s2_def s1_def fields_redraw after_run_def WatchCommand_hasChanged_def
        prev_run buf_run)
  from frame_iff_changed_or_first [OF r1 _ h c2] u p1 same e0
  have "effects s2 = effects s1 @ [Sleep 1, Run ''make'' [''test'']]"
    by (simp add: s1_def fields_redraw after_run_def name_args_run loop_entry_def
        example_command_def new_command_def)
  with r1 c2 e0 show ?thesis by blast
qed

text \<open>
  C5. With an empty path string \<open>NewWatchPaths\<close> returns the absent watcher; the absent
  watcher stays absent through any number of updates and its \<open>hasChanged\<close> is true; so
  every cycle of a loop without a watcher runs the command, and the next cycle has no
  watcher either.
\<close>

theorem no_paths_always_changed:
  "NewWatchPaths fs0 [] = Inr None
   \<and> updates fss None = Inr None
   \<and> WatchPaths_hasChanged None
   \<and> (paths s = None \<longrightarrow>
        (\<exists>rest. effects (final (cycle delay env s))
                  = effects s @ [Sleep delay, Run (WatchCommand.name (cmd s)) (args (cmd s))] @ rest)
        \<and> paths (final (cycle delay env s)) = None)"
proof -
  have h: "WatchPaths_hasChanged None"
    by (simp add: WatchPaths_hasChanged_def)
  have run: "(\<exists>rest. effects (final (cycle delay env s))
                  = effects s @ [Sleep delay, Run (WatchCommand.name (cmd s)) (args (cmd s))] @ rest)
        \<and> paths (final (cycle delay env s)) = None" if "paths s = None"
  proof -
    from that have u: "WatchPaths_update (env_fs env) (paths s) = Inr None"
      by (simp add: WatchPaths_update_def)
    from cycle_run [OF u h, of delay] show ?thesis
      by (auto simp: bail_def fields_redraw effects_redraw after_run_def split: outcome.splits)
  qed
  show ?thesis
    using h run by (simp add: NewWatchPaths_def updates_None)
qed

theorem no_paths_always_changed_witness:
  "paths (loop_entry example_command None example_screen) = None
   \<and> effects (final (cycle 1 (example_env example_fs cut_off)
                (loop_entry example_command None example_screen)))
      = [Sleep 1, Run ''make'' [''test''], Stderr (TimeoutAfter 60000000000)]"
proof -
  let ?env = "example_env example_fs cut_off"
  let ?s0 = "loop_entry example_command None example_screen"
  have p0: "paths ?s0 = None" by (simp add: loop_entry_def)
  have u: "WatchPaths_update (env_fs ?env) (paths ?s0) = Inr None"
    by (simp add: WatchPaths_update_def p0)
  have h: "WatchPaths_hasChanged None"
    by (simp add: WatchPaths_hasChanged_def)
  have "effects (final (cycle 1 ?env ?s0))
      = [Sleep 1, Run ''make'' [''test''], Stderr (TimeoutAfter 60000000000)]"
    using cycle_run [OF u h, of 1]
    by (simp add: err_run example_env_def cut_off_def bail_def after_run_def loop_entry_def
        example_command_def new_command_def)
  with no_paths_always_changed [of example_fs "[]" ?s0 1 ?env] p0 show ?thesis
    by simp
qed

text \<open>
  C6. Let a watcher be made by \<open>NewWatchPaths\<close> and let its first update succeed while
  there is no file to read (no explicit file, and no regular file under any of its
  directories, as under one empty directory). Then after that update the previous and the
  current checksum are equal, \<open>hasChanged\<close> is false, and the first cycle of the loop
  does not run the command: it only sleeps.
\<close>

theorem no_files_no_first_run:
  assumes "NewWatchPaths fs0 pathStr = Inr (Some wp)"
    and "stable_order (env_fs env) wp = []"
    and "WatchPaths_update (env_fs env) (Some wp) = Inr p"
  shows "\<exists>wp'. p = Some wp'
           \<and> WatchPaths.prev wp' = Sum32 (hash wp')
           \<and> \<not> WatchPaths_hasChanged p
           \<and> cycle delay env (loop_entry c (Some wp) scr)
               = Inr ((loop_entry c p scr)\<lparr>effects := [Sleep delay]\<rparr>)"
proof -
  let ?wp' = "wp\<lparr>WatchPaths.prev := Sum32 (hash wp),
                 hash := foldl Write New (map (contents (env_fs env)) (stable_order (env_fs env) wp))\<rparr>"
  from WatchPaths_update_Inr(1) [OF assms(3)] have p: "p = Some ?wp'" .
  have eq: "WatchPaths.prev ?wp' = Sum32 (hash ?wp')"
    by (simp add: assms(2) NewWatchPaths_fresh(2) [OF assms(1)] Sum32_def)
  then have h: "\<not> WatchPaths_hasChanged p"
    by (simp add: p WatchPaths_hasChanged_def)
  have u: "WatchPaths_update (env_fs env) (paths (loop_entry c (Some wp) scr)) = Inr p"
    using assms(3) by (simp add: loop_entry_def)
  from cycle_skip [OF u h, of delay]
  have "cycle delay env (loop_entry c (Some wp) scr)
          = Inr ((loop_entry c p scr)\<lparr>effects := [Sleep delay]\<rparr>)"
    by (simp add: loop_entry_def)
  with p eq h show ?thesis by blast
qed

theorem no_files_no_first_run_witness:
  "NewWatchPaths empty_dir_fs ''data''
     = Inr (Some \<lparr>files = [], dirs = [''data''], WatchPaths.prev = 0, hash = New\<rparr>)
   \<and> cycle 1 (example_env empty_dir_fs exits_3)
        (loop_entry example_command
           (Some \<lparr>files = [], dirs = [''data''], WatchPaths.prev = 0, hash = New\<rparr>) example_screen)
     = Inr \<lparr>cmd = example_command,
            paths = Some \<lparr>files = [], dirs = [''data''], WatchPaths.prev = 1, hash = 1\<rparr>,
            screen = example_screen, first = True, effects = [Sleep 1]\<rparr>"
proof -
  let ?wp = "\<lparr>files = [], dirs = [''data''], WatchPaths.prev = 0, hash = New\<rparr>"
  let ?wp' = "\<lparr>files = [], dirs = [''data''], WatchPaths.prev = 1, hash = 1\<rparr>"
  let ?env = "example_env empty_dir_fs exits_3"
  have f: "Fields ''data'' = [''data'']"
    by (simp add: Fields_def FieldsFunc.simps IsSpace_def)
  have new: "NewWatchPaths empty_dir_fs ''data'' = Inr (Some ?wp)"
    by (simp add: NewWatchPaths_def f empty_dir_fs_def)
  have order: "stable_order (env_fs ?env) ?wp = []"
    by (simp add: stable_order_def example_env_def empty_dir_fs_def)
  have upd: "WatchPaths_update (env_fs ?env) (Some ?wp) = Inr (Some ?wp')"
    by (simp add: WatchPaths_update_def Let_def producer_def Walk_def example_env_def
        empty_dir_fs_def Sum32_def New_def Reset_def)
  from no_files_no_first_run [OF new order upd, of 1 example_command example_screen] new
  show ?thesis by (simp add: loop_entry_def)
qed

text \<open>
  C7, as the claim states it, fails: after the first run of a command that writes 65521
  zero bytes the output is not empty, yet \<open>hasChanged\<close> is false, because the checksum
  of these bytes is 1, the checksum of the empty buffer.
\<close>

theorem first_run_nonempty_output_unchanged:
  "buf (WatchCommand_run zeros example_command) \<noteq> []
   \<and> \<not> WatchCommand_hasChanged (WatchCommand_run zeros example_command)"
proof -
  have "Checksum (replicate 65521 (CHR 0x00)) = 1"
    using update_zeros by (simp add: Checksum_def New_def)
  then show ?thesis
    by (simp add: WatchCommand_hasChanged_def prev_run buf_run zeros_def example_command_def
        new_command_def Checksum_Nil)
qed

text \<open>
  C7, amended. Immediately after the first run of a command, \<open>hasChanged\<close> is true
  exactly when the checksum of the captured output differs from 1, the checksum of the
  empty buffer: it is false when the captured output is empty, and true when the captured
  output is not empty and at most 256 bytes long.
\<close>

theorem first_run_changed_iff_checksum_differs:
  "(WatchCommand_hasChanged (WatchCommand_run x (new_command n a t))
      \<longleftrightarrow> Checksum (written x) \<noteq> 1)
   \<and> (written x = [] \<longrightarrow> \<not> WatchCommand_hasChanged (WatchCommand_run x (new_command n a t)))
   \<and> (written x \<noteq> [] \<and> length (written x) \<le> 256 \<longrightarrow>
        WatchCommand_hasChanged (WatchCommand_run x (new_command n a t)))"
proof -
  have iff: "WatchCommand_hasChanged (WatchCommand_run x (new_command n a t))
      \<longleftrightarrow> Checksum (written x) \<noteq> 1"
    by (auto simp: WatchCommand_hasChanged_def prev_run buf_run new_command_def Checksum_Nil)
  have short: "Checksum (written x) \<noteq> 1" if "written x \<noteq> []" "length (written x) \<le> 256"
    using update_short_nonempty [OF that] by (simp add: Checksum_def New_def)
  show ?thesis
    using iff short by (auto simp: Checksum_Nil)
qed

theorem first_run_changed_iff_checksum_differs_witness:
  "written exits_3 \<noteq> [] \<and> length (written exits_3) \<le> 256
   \<and> WatchCommand_hasChanged (WatchCommand_run exits_3 (new_command ''make'' [''test''] 60000000000))"
proof -
  have short: "written exits_3 \<noteq> [] \<and> length (written exits_3) \<le> 256"
    by (simp add: exits_3_def)
  from first_run_changed_iff_checksum_differs
         [of exits_3 "''make''" "[''test'']" 60000000000, THEN conjunct2, THEN conjunct2, THEN mp, OF short]
    short
  show ?thesis by (simp only: simp_thms)
qed

text \<open>
  C8. For every sequence of byte chunks, writing them one after the other into a new
  streaming checksum gives the same 32-bit sum as writing their concatenation in one
  call, which is the checksum of the concatenation; in particular the chunks
  \<open>foo\<close>, \<open>bar\<close> give the sum of \<open>foobar\<close>.
\<close>

theorem streaming_equals_one_call:
  "Sum32 (foldl Write New chunks) = Sum32 (Write New (concat chunks))
   \<and> Sum32 (foldl Write New chunks) = Checksum (concat chunks)
   \<and> Sum32 (foldl Write New [''foo'', ''bar'']) = Sum32 (Write New ''foobar'')"
proof -
  have streaming: "foldl Write New cs = adler32_update New (concat cs)" for cs
    by (rule foldl_Write [OF reduced_New])
  have "foldl Write New [''foo'', ''bar''] = adler32_update New ''foobar''"
    using streaming [of "[''foo'', ''bar'']"] by simp
  with streaming [of chunks] show ?thesis
    by (simp only: Sum32_def Write_def Checksum_def New_def simp_thms)
qed

text \<open>
  C9. In every update of a present watcher the paths sent to the channel are, in this
  order, the explicitly configured files in their configured order and then, for each
  configured directory in turn, the regular files found under it, depth first, the names
  of each level in lexicographic order. When the update succeeds, no walk met an error,
  every one of these files was read, and the checksum is the one of their contents
  written in that order, starting from a reset checksum.
\<close>

theorem update_feeds_in_stable_order:
  "sent_paths (producer fs p) = stable_order fs p
   \<and> (WatchPaths_update fs (Some p) = Inr (Some p') \<longrightarrow>
        producer fs p = map Sent (stable_order fs p)
        \<and> list_all (readable fs) (stable_order fs p)
        \<and> hash p' = foldl Write New (map (contents fs) (stable_order fs p))
        \<and> Sum32 (hash p') = Checksum (concat (map (contents fs) (stable_order fs p))))"
proof (intro conjI impI)
  show "sent_paths (producer fs p) = stable_order fs p"
    by (rule sent_paths_producer)
next
  assume u: "WatchPaths_update fs (Some p) = Inr (Some p')"
  show "producer fs p = map Sent (stable_order fs p)"
    by (rule WatchPaths_update_Inr(3) [OF u])
  show "list_all (readable fs) (stable_order fs p)"
    by (rule WatchPaths_update_Inr(2) [OF u])
  from WatchPaths_update_Inr(1) [OF u]
  show h: "hash p' = foldl Write New (map (contents fs) (stable_order fs p))"
    by simp
  have "foldl Write New (map (contents fs) (stable_order fs p))
        = adler32_update New (concat (map (contents fs) (stable_order fs p)))"
    by (rule foldl_Write [OF reduced_New])
  then show "Sum32 (hash p') = Checksum (concat (map (contents fs) (stable_order fs p)))"
    by (simp only: h Sum32_def Checksum_def New_def)
qed

theorem update_feeds_in_stable_order_witness:
  "stable_order example_fs example_paths
     = [''b.txt'', ''a.txt'', ''data/sub/x'', ''data/sub/y'', ''data/z.txt'']
   \<and> WatchPaths_update example_fs (Some example_paths)
     = Inr (Some (example_paths\<lparr>WatchPaths.prev := 1, hash := Checksum ''BAxyz''\<rparr>))
   \<and> Checksum ''BAxyz'' = foldl Write New [''B'', ''A'', ''x'', ''y'', ''z'']"
proof -
  let ?p' = "example_paths\<lparr>WatchPaths.prev := 1, hash := Checksum ''BAxyz''\<rparr>"
  have order: "stable_order example_fs example_paths
     = [''b.txt'', ''a.txt'', ''data/sub/x'', ''data/sub/y'', ''data/z.txt'']"
    by (simp add: stable_order_def example_fs_def example_paths_def example_tree_def)
  have "foldl Write New [''B'', ''A'', ''x'', ''y'', ''z'']
        = adler32_update New (concat [''B'', ''A'', ''x'', ''y'', ''z''])"
    by (rule foldl_Write [OF reduced_New])
  then have sum: "foldl Write New [''B'', ''A'', ''x'', ''y'', ''z''] = Checksum ''BAxyz''"
    by (simp only: Checksum_def New_def concat.simps append.simps)
  have prod: "producer example_fs example_paths
     = map Sent [''b.txt'', ''a.txt'', ''data/sub/x'', ''data/sub/y'', ''data/z.txt'']"
    by (simp add: producer_def Walk_def example_fs_def example_paths_def example_tree_def)
  have upd: "WatchPaths_update example_fs (Some example_paths) = Inr (Some ?p')"
    using sum
    by (simp add: WatchPaths_update_def Let_def producer_fields prod Reset_def Sum32_def)
       (simp add: example_fs_def example_paths_def New_def)
  from update_feeds_in_stable_order [of example_fs example_paths ?p'] upd order sum
  show ?thesis by simp
qed

text \<open>
  C10. For a path string that is not empty and holds white space only,
  \<open>NewWatchPaths\<close> returns a present watcher with no files and no directories. After
  every update of it, whatever the file system, the previous and the current checksum are
  equal and \<open>hasChanged\<close> is false. A loop that starts with this watcher never runs the
  command and never ends by itself: after any number of cycles it has only slept.
\<close>

theorem white_space_paths_never_run:
  assumes "pathStr \<noteq> []" and "white_space_only pathStr"
  shows "\<exists>wp. NewWatchPaths fs0 pathStr = Inr (Some wp)
           \<and> files wp = [] \<and> dirs wp = []
           \<and> (\<forall>fs fss. \<exists>wp'. updates (fs # fss) (Some wp) = Inr (Some wp')
                  \<and> WatchPaths.prev wp' = Sum32 (hash wp')
                  \<and> \<not> WatchPaths_hasChanged (Some wp'))
           \<and> (\<forall>delay envs c scr. \<exists>s'. cycles delay envs (loop_entry c (Some wp) scr) = Inr s'
                  \<and> effects s' = map (\<lambda>env. Sleep delay) envs
                  \<and> \<not> list_ex is_Run (effects s')
                  \<and> cmd s' = c)"
proof -
  let ?wp = "\<lparr>files = [], dirs = [], WatchPaths.prev = 0, hash = New\<rparr>"
  have "Fields pathStr = []"
    using assms(2) by (simp add: Fields_def white_space_only_def FieldsFunc_white_space)
  with assms(1) have new: "NewWatchPaths fs0 pathStr = Inr (Some ?wp)"
    by (simp add: NewWatchPaths_def)
  have first_update: "WatchPaths_update fs (Some ?wp) = Inr (Some idle)" for fs
    by (simp add: WatchPaths_update_nothing idle_def Sum32_def New_def)
  have quiet: "\<not> WatchPaths_hasChanged (Some idle)"
    by (simp add: WatchPaths_hasChanged_def idle_def Sum32_def)
  have upd: "updates (fs # fss) (Some ?wp) = Inr (Some idle)" for fs fss
    by (simp add: first_update updates_idle)
  have idle_cycles: "cycles delay envs (s\<lparr>paths := Some idle\<rparr>)
        = Inr (s\<lparr>paths := Some idle, effects := effects s @ map (\<lambda>env. Sleep delay) envs\<rparr>)"
    for delay envs and s :: loop_state
  proof (induction envs arbitrary: s)
    case Nil
    show ?case by simp
  next
    case (Cons env envs)
    have u: "WatchPaths_update (env_fs env) (paths (s\<lparr>paths := Some idle\<rparr>)) = Inr (Some idle)"
      by (simp add: WatchPaths_update_idle)
    from cycle_skip [OF u quiet, of delay]
    have "cycles delay (env # envs) (s\<lparr>paths := Some idle\<rparr>)
        = cycles delay envs ((s\<lparr>effects := effects s @ [Sleep delay]\<rparr>)\<lparr>paths := Some idle\<rparr>)"
      by simp
    also note Cons.IH
    finally show ?case by simp
  qed
  have loop: "cycles delay envs (loop_entry c (Some ?wp) scr)
        = Inr ((loop_entry c (Some idle) scr)\<lparr>effects := map (\<lambda>env. Sleep delay) envs\<rparr>)
          \<or> envs = []"
    for delay envs c scr
  proof (cases envs)
    case Nil
    then show ?thesis by simp
  next
    case (Cons env rest)
    have u: "WatchPaths_update (env_fs env) (paths (loop_entry c (Some ?wp) scr)) = Inr (Some idle)"
      by (simp add: loop_entry_def first_update)
    from cycle_skip [OF u quiet, of delay]
      idle_cycles [of delay rest "(loop_entry c (Some ?wp) scr)\<lparr>effects := [Sleep delay]\<rparr>"]
    show ?thesis by (simp add: Cons loop_entry_def)
  qed
  have no_run: "\<not> list_ex is_Run (map (\<lambda>env. Sleep delay) envs)" for delay and envs :: "cycle_env list"
    by (induction envs) simp_all
  have cyc: "\<exists>s'. cycles delay envs (loop_entry c (Some ?wp) scr) = Inr s'
                  \<and> effects s' = map (\<lambda>env. Sleep delay) envs
                  \<and> \<not> list_ex is_Run (effects s')
                  \<and> cmd s' = c" for delay envs c scr
    using loop [of delay envs c scr] no_run [of delay envs]
    by (auto simp: loop_entry_def)
  have upd': "\<exists>wp'. updates (fs # fss) (Some ?wp) = Inr (Some wp')
                  \<and> WatchPaths.prev wp' = Sum32 (hash wp')
                  \<and> \<not> WatchPaths_hasChanged (Some wp')" for fs fss
    using upd [of fs fss] quiet by (auto simp: idle_def Sum32_def)
  have "NewWatchPaths fs0 pathStr = Inr (Some ?wp)
           \<and> files ?wp = [] \<and> dirs ?wp = []
           \<and> (\<forall>fs fss. \<exists>wp'. updates (fs # fss) (Some ?wp) = Inr (Some wp')
                  \<and> WatchPaths.prev wp' = Sum32 (hash wp')
                  \<and> \<not> WatchPaths_hasChanged (Some wp'))
           \<and> (\<forall>delay envs c scr. \<exists>s'. cycles delay envs (loop_entry c (Some ?wp) scr) = Inr s'
                  \<and> effects s' = map (\<lambda>env. Sleep delay) envs
                  \<and> \<not> list_ex is_Run (effects s')
                  \<and> cmd s' = c)"
    using new upd' cyc by simp
  then show ?thesis by (rule exI)
qed

theorem white_space_paths_never_run_witness:
  "\<exists>wp. NewWatchPaths example_fs [CHR '' '', CHR 0x09, CHR 0xC2, CHR 0xA0] = Inr (Some wp)
      \<and> files wp = [] \<and> dirs wp = []
      \<and> (\<exists>s'. cycles 1 [example_env example_fs exits_3, example_env empty_dir_fs cut_off]
                  (loop_entry example_command (Some wp) example_screen) = Inr s'
             \<and> effects s' = [Sleep 1, Sleep 1])"
proof -
  let ?s = "[CHR '' '', CHR 0x09, CHR 0xC2, CHR 0xA0]"
  have ne: "?s \<noteq> []" by simp
  have ws: "white_space_only ?s"
    by (simp add: white_space_only_def runes.simps IsSpace_def Let_def)
  from white_space_paths_never_run [OF ne ws, of example_fs] obtain wp where
    wp: "NewWatchPaths example_fs ?s = Inr (Some wp)" "files wp = []" "dirs wp = []"
    and cyc: "\<And>delay envs c scr. \<exists>s'. cycles delay envs (loop_entry c (Some wp) scr) = Inr s'
                  \<and> effects s' = map (\<lambda>env. Sleep delay) envs
                  \<and> \<not> list_ex is_Run (effects s')
                  \<and> cmd s' = c"
    by blast
  from cyc [of 1 "[example_env example_fs exits_3, example_env empty_dir_fs cut_off]"
      example_command example_screen]
  obtain s' where "cycles 1 [example_env example_fs exits_3, example_env empty_dir_fs cut_off]
                  (loop_entry example_command (Some wp) example_screen) = Inr s'"
    and "effects s' = [Sleep 1, Sleep 1]"
    by auto
  with wp show ?thesis by blast
qed

end
